theory Spec2Isabelle
  imports Main "HOL-Library.Multiset" "HOL-Library.Word"
begin

section \<open>The partition call of \<open>do_sort\<close>\<close>

text \<open>
  \<open>do_sort\<close> reorders the list behind the pivot with \<open>std::partition\<close> over the
  bidirectional iterators of a \<open>std::list\<close>. The algorithm of the standard library for
  such iterators moves one iterator forward over the elements that satisfy the predicate,
  one backward over those that do not, exchanges the two elements where both stop and goes
  on until the iterators meet; it returns the meeting point. (libstdc++, libc++ and the
  Microsoft library all do so; the standard promises only that the elements satisfying the
  predicate come first, not their order.) Positions in the list are indices here:
  \<open>first\<close> and \<open>last'\<close> are the two iterators, \<open>last'\<close> one past the range as
  \<open>end()\<close> is. The iterators never pass each other, so the test \<open>first \<ge> last'\<close> is
  the library's \<open>first == last\<close>.
\<close>

function skip_true :: "('a \<Rightarrow> bool) \<Rightarrow> 'a list \<Rightarrow> nat \<Rightarrow> nat \<Rightarrow> nat" where
  "skip_true pred xs first last' =
     (if first \<ge> last' then first
      else if pred (xs ! first) then skip_true pred xs (Suc first) last'
      else first)"
  by pat_completeness auto
termination
  by (relation "measure (\<lambda>(pred, xs, first, last'). last' - first)") auto

function skip_false :: "('a \<Rightarrow> bool) \<Rightarrow> 'a list \<Rightarrow> nat \<Rightarrow> nat \<Rightarrow> nat" where
  "skip_false pred xs first last' =
     (if first \<ge> last' then last'
      else if \<not> pred (xs ! last') then skip_false pred xs first (last' - 1)
      else last')"
  by pat_completeness auto
termination
  by (relation "measure (\<lambda>(pred, xs, first, last'). last' - first)") auto

declare skip_true.simps [simp del] skip_false.simps [simp del]

definition iter_swap :: "'a list \<Rightarrow> nat \<Rightarrow> nat \<Rightarrow> 'a list" where
  "iter_swap xs i j = xs[i := xs ! j, j := xs ! i]"

lemma skip_true_bounds: "first \<le> skip_true pred xs first last'"
  by (induction pred xs first last' rule: skip_true.induct) (subst skip_true.simps, auto)

lemma skip_false_bounds: "skip_false pred xs first last' \<le> last'"
  by (induction pred xs first last' rule: skip_false.induct) (subst skip_false.simps, auto)

text \<open>
  One round of the outer loop: skip forward, step \<open>last'\<close> back, skip backward, swap.
  The result is the reordered list and the returned iterator.
\<close>

function partition_loop :: "('a \<Rightarrow> bool) \<Rightarrow> 'a list \<Rightarrow> nat \<Rightarrow> nat \<Rightarrow> 'a list \<times> nat" where
  "partition_loop pred xs first last' =
     (let first1 = skip_true pred xs first last' in
      if first1 \<ge> last' then (xs, first1)
      else
        let last1 = skip_false pred xs first1 (last' - 1) in
        if first1 \<ge> last1 then (xs, first1)
        else partition_loop pred (iter_swap xs first1 last1) (Suc first1) last1)"
  by pat_completeness auto
termination
proof (relation "measure (\<lambda>(pred, xs, first, last'). last' - first)", goal_cases)
  case 1
  then show ?case by simp
next
  case (2 pred xs first last' first1 last1)
  have "first \<le> first1" using 2(1) by (simp add: skip_true_bounds)
  moreover have "last1 \<le> last' - 1" using 2(3) by (simp add: skip_false_bounds)
  ultimately show ?case using 2(2,4) by simp
qed

declare partition_loop.simps [simp del]

definition std_partition :: "('a \<Rightarrow> bool) \<Rightarrow> 'a list \<Rightarrow> 'a list \<times> nat" where
  "std_partition pred xs = partition_loop pred xs 0 (length xs)"

text \<open>
  \<open>partitioned_at pred ys k\<close>: the elements of \<open>ys\<close> before position \<open>k\<close> satisfy
  \<open>pred\<close>, those from \<open>k\<close> on do not.
\<close>

definition partitioned_at :: "('a \<Rightarrow> bool) \<Rightarrow> 'a list \<Rightarrow> nat \<Rightarrow> bool" where
  "partitioned_at pred ys k \<longleftrightarrow>
     k \<le> length ys \<and> (\<forall>i<k. pred (ys ! i)) \<and> (\<forall>i. k \<le> i \<and> i < length ys \<longrightarrow> \<not> pred (ys ! i))"

text \<open>
  Lines 61 to 65 of \<open>do_sort\<close>: partition the list behind the pivot by
  \<open>val < pivot_val\<close> and splice the elements before the returned iterator into the lower
  chunk; the rest stays in \<open>chunk_data\<close>. The element type is any type with a \<open><\<close>.
\<close>

definition partition_step :: "'a::ord \<Rightarrow> 'a list \<Rightarrow> 'a list \<times> 'a list" where
  "partition_step pivot_val chunk_data =
     (let (parted, pivot_iter) = std_partition (\<lambda>val. val < pivot_val) chunk_data
      in (take pivot_iter parted, drop pivot_iter parted))"

section \<open>The lock-free stack and its hazard pointers\<close>

text \<open>
  The operations of \<open>lfs_hazard.hpp\<close> as one thread runs them from start to end, with no
  other thread writing in between: the state of the process is passed in and returned.
  Addresses and thread ids are numbers; a pointer is an address or \<open>nullptr\<close> (\<open>None\<close>),
  a \<open>thread::id\<close> is a thread or the id of no thread (\<open>None\<close>).
\<close>

type_synonym addr = nat
type_synonym thread_id = nat

datatype error = No_hazard_pointers_available | Dangling_pointer | Promise_already_satisfied

record 'T node =
  data :: "'T option"
  next' :: "addr option"

record hazard_pointer =
  id' :: "thread_id option"
  pointer :: "addr option"

definition max_hazard_pointers :: nat where
  "max_hazard_pointers = 100"

text \<open>
  \<open>head\<close> is the stack's only member. \<open>heap\<close> holds the nodes that \<open>new\<close> has
  allocated and \<open>delete\<close> has not freed; \<open>new\<close> hands out \<open>next_addr\<close>, an address it
  has never handed out before. \<open>hazard_pointers\<close> is the global table (slots
  \<open>0 .. max_hazard_pointers - 1\<close>), \<open>nodes_to_reclaim\<close> the global reclaim list, first
  entry first, as the addresses its entries carry. \<open>hazard\<close> is the \<open>thread_local\<close>
  \<open>hp_owner\<close> of \<open>get_hazard_pointer_for_current_thread\<close>: the slot a thread owns once
  it has constructed it.
\<close>

record 'T world =
  head :: "addr option"
  heap :: "addr \<rightharpoonup> 'T node"
  next_addr :: addr
  hazard_pointers :: "nat \<Rightarrow> hazard_pointer"
  nodes_to_reclaim :: "addr list"
  hazard :: "thread_id \<rightharpoonup> nat"

text \<open>
  The constructor of \<open>hp_owner\<close>: claim the first slot whose id is that of no thread;
  throw when there is none.
\<close>

definition hp_owner ::
  "thread_id \<Rightarrow> (nat \<Rightarrow> hazard_pointer) \<Rightarrow> error + nat \<times> (nat \<Rightarrow> hazard_pointer)" where
  "hp_owner this_thread tbl =
     (case find (\<lambda>i. id' (tbl i) = None) [0..<max_hazard_pointers] of
        None \<Rightarrow> Inl No_hazard_pointers_available
      | Some i \<Rightarrow> Inr (i, tbl(i := (tbl i)\<lparr>id' := Some this_thread\<rparr>)))"

definition get_hazard_pointer_for_current_thread ::
  "thread_id \<Rightarrow> 'T world \<Rightarrow> error + nat \<times> 'T world" where
  "get_hazard_pointer_for_current_thread this_thread w =
     (case hazard w this_thread of
        Some hp \<Rightarrow> Inr (hp, w)
      | None \<Rightarrow>
          (case hp_owner this_thread (hazard_pointers w) of
             Inl e \<Rightarrow> Inl e
           | Inr (hp, tbl) \<Rightarrow>
               Inr (hp, w\<lparr>hazard_pointers := tbl, hazard := (hazard w)(this_thread \<mapsto> hp)\<rparr>)))"

definition outstanding_hazard_pointers_for :: "addr option \<Rightarrow> (nat \<Rightarrow> hazard_pointer) \<Rightarrow> bool" where
  "outstanding_hazard_pointers_for p tbl =
     list_ex (\<lambda>i. pointer (tbl i) = p) [0..<max_hazard_pointers]"

definition delete :: "addr \<Rightarrow> 'T world \<Rightarrow> 'T world" where
  "delete p w = w\<lparr>heap := (heap w)(p := None)\<rparr>"

definition add_to_reclaim_list :: "addr \<Rightarrow> 'T world \<Rightarrow> 'T world" where
  "add_to_reclaim_list p w = w\<lparr>nodes_to_reclaim := p # nodes_to_reclaim w\<rparr>"

definition reclaim_later :: "addr \<Rightarrow> 'T world \<Rightarrow> 'T world" where
  "reclaim_later p w = add_to_reclaim_list p w"

text \<open>
  The loop of \<open>delete_nodes_with_no_hazards\<close> over the list it has taken: deleting an
  entry runs its deleter on the node.
\<close>

fun delete_nodes_loop :: "addr list \<Rightarrow> 'T world \<Rightarrow> 'T world" where
  "delete_nodes_loop [] w = w"
| "delete_nodes_loop (current # next) w =
     delete_nodes_loop next
       (if \<not> outstanding_hazard_pointers_for (Some current) (hazard_pointers w)
        then delete current w
        else add_to_reclaim_list current w)"

definition delete_nodes_with_no_hazards :: "'T world \<Rightarrow> 'T world" where
  "delete_nodes_with_no_hazards w =
     delete_nodes_loop (nodes_to_reclaim w) (w\<lparr>nodes_to_reclaim := []\<rparr>)"

text \<open>
  \<open>push\<close>: with no other writer the compare-exchange finds \<open>head\<close> as it was loaded and
  succeeds at once.
\<close>

definition push :: "'T \<Rightarrow> 'T world \<Rightarrow> 'T world" where
  "push d w =
     (let new_node = next_addr w in
      w\<lparr>heap := (heap w)(new_node \<mapsto> \<lparr>data = Some d, next' = head w\<rparr>),
        next_addr := Suc new_node,
        head := Some new_node\<rparr>)"

definition store :: "nat \<Rightarrow> addr option \<Rightarrow> 'T world \<Rightarrow> 'T world" where
  "store hp p w =
     w\<lparr>hazard_pointers := (hazard_pointers w)(hp := (hazard_pointers w hp)\<lparr>pointer := p\<rparr>)\<rparr>"

text \<open>
  \<open>pop\<close>: the hazard pointer is fetched first (line 156), then \<open>head\<close> is loaded. With
  no other writer the inner loop publishes \<open>old_head\<close> once, reads the same head again
  and leaves, and the compare-exchange of line 166 succeeds. Reading \<open>old_head->next\<close>
  of a node that is not allocated is the error \<open>Dangling_pointer\<close>.
\<close>

definition pop :: "thread_id \<Rightarrow> 'T world \<Rightarrow> error + 'T option \<times> 'T world" where
  "pop this_thread w =
     (case get_hazard_pointer_for_current_thread this_thread w of
        Inl e \<Rightarrow> Inl e
      | Inr (hp, w1) \<Rightarrow>
          (let old_head = head w1;
               w2 = store hp old_head w1
           in case old_head of
                None \<Rightarrow> Inr (None, store hp None w2)
              | Some p \<Rightarrow>
                  (case heap w2 p of
                     None \<Rightarrow> Inl Dangling_pointer
                   | Some nd \<Rightarrow>
                       (let w3 = w2\<lparr>head := next' nd\<rparr>;
                            w4 = store hp None w3;
                            res = data nd;
                            w5 = w4\<lparr>heap := (heap w4)(p \<mapsto> nd\<lparr>data := None\<rparr>)\<rparr>;
                            w6 = (if outstanding_hazard_pointers_for (Some p) (hazard_pointers w5)
                                  then reclaim_later p w5
                                  else delete p w5);
                            w7 = delete_nodes_with_no_hazards w6
                        in Inr (res, w7)))))"

text \<open>
  The process before any stack operation: the globals are zero-initialised, no thread
  has constructed its \<open>hp_owner\<close>. In \<open>exhausted_world\<close> every slot of the table is owned,
  slot \<open>i\<close> by thread \<open>i + 1\<close>, and thread \<open>0\<close> owns none.
\<close>

definition initial_world :: "'T world" where
  "initial_world =
     \<lparr>head = None, heap = Map.empty, next_addr = 1,
      hazard_pointers = (\<lambda>i. \<lparr>id' = None, pointer = None\<rparr>),
      nodes_to_reclaim = [], hazard = Map.empty\<rparr>"

definition exhausted_world :: "'T world" where
  "exhausted_world =
     \<lparr>head = None, heap = Map.empty, next_addr = 1,
      hazard_pointers = (\<lambda>i. \<lparr>id' = Some (Suc i), pointer = None\<rparr>),
      nodes_to_reclaim = [],
      hazard = (\<lambda>t. if 0 < t \<and> t \<le> max_hazard_pointers then Some (t - 1) else None)\<rparr>"

text \<open>
  The process before any stack operation, with the memory in which a sorter is about to be
  built holding \<open>0x2a\<close> where its \<open>head\<close> will be: an address of no node.
\<close>

definition stale_world :: "'T world" where
  "stale_world =
     \<lparr>head = Some 42, heap = Map.empty, next_addr = 1,
      hazard_pointers = (\<lambda>i. \<lparr>id' = None, pointer = None\<rparr>),
      nodes_to_reclaim = [], hazard = Map.empty\<rparr>"

text \<open>
  A stack of one node at address \<open>1\<close> that another thread, which owns slot \<open>5\<close>, has
  published in its hazard pointer.
\<close>

definition watched_world :: "nat world" where
  "watched_world =
     \<lparr>head = Some 1, heap = [1 \<mapsto> \<lparr>data = Some 7, next' = None\<rparr>], next_addr = 2,
      hazard_pointers =
        (\<lambda>i. \<lparr>id' = None, pointer = None\<rparr>)(5 := \<lparr>id' = Some 9, pointer = Some 1\<rparr>),
      nodes_to_reclaim = [], hazard = [9 \<mapsto> 5]\<rparr>"

section \<open>The sorter\<close>

text \<open>
  A chunk is its data and its promise; the promise and the future taken from it name one
  shared state, a number here. The sorter holds the stack \<open>chunks\<close> (with the process
  state its operations work on), the number of threads it has started, its cap
  (\<open>unsigned\<close>, 32 bits) and its flag. \<open>shared_states\<close> gives the value of every shared
  state that has been set, \<open>next_state\<close> is the next one a new promise gets.
\<close>

record 'a chunk_to_sort =
  data' :: "'a list"
  promise :: nat

record 'a sorter =
  chunks :: "'a chunk_to_sort world"
  threads :: nat
  max_thread_count :: "32 word"
  end_of_data :: bool
  shared_states :: "nat \<rightharpoonup> 'a list"
  next_state :: nat

text \<open>
  \<open>do_sort\<close>, the loop of its lines 76 to 78 with the \<open>get\<close> of line 80
  (\<open>wait_for_lower\<close>), \<open>try_sort_chunk\<close> and \<open>sort_chunk\<close>, as the calling thread runs
  them while no other thread takes a step. With a cap of zero the sorter starts no
  thread and this is the whole program; with a larger cap it is the run in which the
  started threads (counted in \<open>threads\<close>) are not scheduled before the call returns,
  one schedule among those of the program. The loop runs
  while the future is not ready, and nothing bounds it in the source: every call and every
  round of the loop takes one unit of \<open>fuel\<close>, and \<open>None\<close> is the run that has not
  returned within it. \<open>Inl\<close> is an exception that leaves the function.
\<close>

function (sequential) do_sort ::
    "nat \<Rightarrow> thread_id \<Rightarrow> 'a::ord list \<Rightarrow> 'a sorter \<Rightarrow> (error + 'a list \<times> 'a sorter) option"
  and wait_for_lower ::
    "nat \<Rightarrow> thread_id \<Rightarrow> nat \<Rightarrow> 'a sorter \<Rightarrow> (error + 'a list \<times> 'a sorter) option"
  and try_sort_chunk ::
    "nat \<Rightarrow> thread_id \<Rightarrow> 'a sorter \<Rightarrow> (error + 'a sorter) option"
  and sort_chunk ::
    "nat \<Rightarrow> thread_id \<Rightarrow> 'a chunk_to_sort \<Rightarrow> 'a sorter \<Rightarrow> (error + 'a sorter) option"
where
  "do_sort 0 this_thread chunk_data s = None"
| "do_sort (Suc fuel) this_thread [] s = Some (Inr ([], s))"
| "do_sort (Suc fuel) this_thread (pivot_val # chunk_data) s =
     (let (lower, higher) = partition_step pivot_val chunk_data;
          new_lower_fut = next_state s;
          new_lower_chunk = \<lparr>data' = lower, promise = new_lower_fut\<rparr>;
          s1 = s\<lparr>next_state := Suc (next_state s)\<rparr>;
          s2 = s1\<lparr>chunks := push new_lower_chunk (chunks s1)\<rparr>;
          s3 = (if threads s2 < unat (max_thread_count s2)
                then s2\<lparr>threads := Suc (threads s2)\<rparr> else s2)
      in case do_sort fuel this_thread higher s3 of
           None \<Rightarrow> None
         | Some (Inl e) \<Rightarrow> Some (Inl e)
         | Some (Inr (new_higher, s4)) \<Rightarrow>
             (case wait_for_lower fuel this_thread new_lower_fut s4 of
                None \<Rightarrow> None
              | Some (Inl e) \<Rightarrow> Some (Inl e)
              | Some (Inr (new_lower, s5)) \<Rightarrow>
                  Some (Inr (new_lower @ [pivot_val] @ new_higher, s5))))"
| "wait_for_lower 0 this_thread new_lower_fut s = None"
| "wait_for_lower (Suc fuel) this_thread new_lower_fut s =
     (case shared_states s new_lower_fut of
        Some new_lower \<Rightarrow> Some (Inr (new_lower, s))
      | None \<Rightarrow>
          (case try_sort_chunk fuel this_thread s of
             None \<Rightarrow> None
           | Some (Inl e) \<Rightarrow> Some (Inl e)
           | Some (Inr s') \<Rightarrow> wait_for_lower fuel this_thread new_lower_fut s'))"
| "try_sort_chunk 0 this_thread s = None"
| "try_sort_chunk (Suc fuel) this_thread s =
     (case pop this_thread (chunks s) of
        Inl e \<Rightarrow> Some (Inl e)
      | Inr (None, w) \<Rightarrow> Some (Inr (s\<lparr>chunks := w\<rparr>))
      | Inr (Some chunk, w) \<Rightarrow> sort_chunk fuel this_thread chunk (s\<lparr>chunks := w\<rparr>))"
| "sort_chunk 0 this_thread chunk s = None"
| "sort_chunk (Suc fuel) this_thread chunk s =
     (case do_sort fuel this_thread (data' chunk) s of
        None \<Rightarrow> None
      | Some (Inl e) \<Rightarrow> Some (Inl e)
      | Some (Inr (result, s')) \<Rightarrow>
          (case shared_states s' (promise chunk) of
             Some v \<Rightarrow> Some (Inl Promise_already_satisfied)
           | None \<Rightarrow>
               Some (Inr (s'\<lparr>shared_states := (shared_states s')(promise chunk \<mapsto> result)\<rparr>))))"
  by pat_completeness auto
termination
  by (relation "measure (\<lambda>x. case x of
        Inl (Inl (fuel, _)) \<Rightarrow> fuel
      | Inl (Inr (fuel, _)) \<Rightarrow> fuel
      | Inr (Inl (fuel, _)) \<Rightarrow> fuel
      | Inr (Inr (fuel, _)) \<Rightarrow> fuel)") auto

text \<open>
  \<open>sort_thread\<close>, the function a started thread runs (lines 43 to 48), as that thread
  runs it while no other thread takes a step. \<open>Inl\<close> is an exception that leaves the
  function: the thread has no frame above it, and no handler.
\<close>

fun sort_thread :: "nat \<Rightarrow> thread_id \<Rightarrow> 'a::ord sorter \<Rightarrow> (error + 'a sorter) option" where
  "sort_thread 0 this_thread s = None"
| "sort_thread (Suc fuel) this_thread s =
     (if end_of_data s then Some (Inr s)
      else
        (case try_sort_chunk fuel this_thread s of
           None \<Rightarrow> None
         | Some (Inl e) \<Rightarrow> Some (Inl e)
         | Some (Inr s') \<Rightarrow> sort_thread fuel this_thread s'))"

text \<open>
  The constructor names two members: the cap, \<open>hardware_concurrency() - 1\<close> in
  \<open>unsigned\<close>, and the flag. \<open>threads\<close> is an empty vector. \<open>lock_free_stack\<close> has no
  constructor and \<open>head\<close> no initialiser, so \<open>head\<close> is not written: it holds what the
  memory of the new sorter holds, here the \<open>head\<close> of the world passed in. The destructor
  sets the flag and joins the threads.
\<close>

definition sorter' :: "32 word \<Rightarrow> 'a chunk_to_sort world \<Rightarrow> 'a sorter" where
  "sorter' hardware_concurrency w =
     \<lparr>chunks = w, threads = 0,
      max_thread_count = hardware_concurrency - 1, end_of_data = False,
      shared_states = Map.empty, next_state = 0\<rparr>"

definition sorter_dtor :: "'a sorter \<Rightarrow> 'a sorter" where
  "sorter_dtor s = s\<lparr>end_of_data := True\<rparr>"

definition parallel_quick_sort ::
  "nat \<Rightarrow> thread_id \<Rightarrow> 32 word \<Rightarrow> 'a::ord list \<Rightarrow> 'a chunk_to_sort world
     \<Rightarrow> (error + 'a list \<times> 'a chunk_to_sort world) option" where
  "parallel_quick_sort fuel this_thread hardware_concurrency input w =
     (if input = [] then Some (Inr (input, w))
      else
        (case do_sort fuel this_thread input (sorter' hardware_concurrency w) of
           None \<Rightarrow> None
         | Some (Inl e) \<Rightarrow> Some (Inl e)
         | Some (Inr (result, s)) \<Rightarrow> Some (Inr (result, chunks (sorter_dtor s)))))"

text \<open>
  The sorter as \<open>do_sort\<close> has it when it calls itself on the higher part: the lower
  chunk pushed (lines 64 to 67) and a thread started if the cap allows (lines 69 to 71).
\<close>

definition offloaded :: "'a::ord \<Rightarrow> 'a list \<Rightarrow> 'a sorter \<Rightarrow> 'a sorter" where
  "offloaded pivot_val chunk_data s =
     (let new_lower_chunk =
            \<lparr>data' = fst (partition_step pivot_val chunk_data), promise = next_state s\<rparr>;
          s1 = s\<lparr>next_state := Suc (next_state s)\<rparr>;
          s2 = s1\<lparr>chunks := push new_lower_chunk (chunks s1)\<rparr>
      in if threads s2 < unat (max_thread_count s2)
         then s2\<lparr>threads := Suc (threads s2)\<rparr> else s2)"

section \<open>Invariants of the model\<close>

text \<open>
  \<open>node_chain h p as\<close>: following \<open>next\<close> from \<open>p\<close> in the heap \<open>h\<close> visits the
  addresses \<open>as\<close> and ends at \<open>nullptr\<close>. \<open>stack_is w vs\<close>: the stack of \<open>w\<close> holds the
  values \<open>vs\<close>, top first, in distinct nodes the allocator has handed out, none of which
  is on the reclaim list, and the allocator has handed out the addresses on the reclaim
  list too (so \<open>new\<close> returns none of them).
\<close>

primrec node_chain :: "(addr \<rightharpoonup> 'T node) \<Rightarrow> addr option \<Rightarrow> addr list \<Rightarrow> bool" where
  "node_chain h p [] \<longleftrightarrow> p = None"
| "node_chain h p (a # as) \<longleftrightarrow>
     p = Some a \<and> (case h a of None \<Rightarrow> False | Some nd \<Rightarrow> node_chain h (next' nd) as)"

definition linked_as :: "'T world \<Rightarrow> addr list \<Rightarrow> 'T list \<Rightarrow> bool" where
  "linked_as w as vs \<longleftrightarrow>
     node_chain (heap w) (head w) as \<and> distinct as \<and>
     map (\<lambda>a. map_option data (heap w a)) as = map (\<lambda>v. Some (Some v)) vs \<and>
     (\<forall>a\<in>set as. a < next_addr w) \<and>
     (\<forall>a\<in>set (nodes_to_reclaim w). a < next_addr w \<and> a \<notin> set as)"

definition stack_is :: "'T world \<Rightarrow> 'T list \<Rightarrow> bool" where
  "stack_is w vs \<longleftrightarrow> (\<exists>as. linked_as w as vs)"

text \<open>
  The same with the chain ending at the pointer \<open>b\<close> that \<open>head\<close> held when the stack
  came into being, which need not be \<open>nullptr\<close>: the nodes of the stack lie above \<open>b\<close>.
\<close>

primrec node_path ::
  "(addr \<rightharpoonup> 'T node) \<Rightarrow> addr option \<Rightarrow> addr list \<Rightarrow> addr option \<Rightarrow> bool" where
  "node_path h p [] b \<longleftrightarrow> p = b"
| "node_path h p (a # as) b \<longleftrightarrow>
     p = Some a \<and> (case h a of None \<Rightarrow> False | Some nd \<Rightarrow> node_path h (next' nd) as b)"

definition linked_above :: "'T world \<Rightarrow> addr list \<Rightarrow> 'T list \<Rightarrow> addr option \<Rightarrow> bool" where
  "linked_above w as vs b \<longleftrightarrow>
     node_path (heap w) (head w) as b \<and> distinct as \<and>
     map (\<lambda>a. map_option data (heap w a)) as = map (\<lambda>v. Some (Some v)) vs \<and>
     (\<forall>a\<in>set as. a < next_addr w) \<and>
     (\<forall>a\<in>set (nodes_to_reclaim w). a < next_addr w \<and> a \<notin> set as)"

definition stack_above :: "'T world \<Rightarrow> 'T list \<Rightarrow> addr option \<Rightarrow> bool" where
  "stack_above w vs b \<longleftrightarrow> (\<exists>as. linked_above w as vs b)"

definition allocator_ok :: "'T world \<Rightarrow> bool" where
  "allocator_ok w \<longleftrightarrow> list_all (\<lambda>a. a < next_addr w) (nodes_to_reclaim w)"

text \<open>
  A thread can get its hazard pointer when it owns a slot already or the table has a slot
  that no thread owns.
\<close>

definition slot_free :: "(nat \<Rightarrow> hazard_pointer) \<Rightarrow> bool" where
  "slot_free tbl = list_ex (\<lambda>i. id' (tbl i) = None) [0..<max_hazard_pointers]"

definition can_acquire :: "thread_id \<Rightarrow> 'T world \<Rightarrow> bool" where
  "can_acquire this_thread w \<longleftrightarrow> hazard w this_thread \<noteq> None \<or> slot_free (hazard_pointers w)"

definition sorter_ok :: "thread_id \<Rightarrow> 'a sorter \<Rightarrow> 'a chunk_to_sort list \<Rightarrow> bool" where
  "sorter_ok this_thread s cs \<longleftrightarrow>
     stack_is (chunks s) cs \<and> can_acquire this_thread (chunks s) \<and>
     (\<forall>i\<ge>next_state s. shared_states s i = None)"

definition sorter_ok_above ::
  "thread_id \<Rightarrow> 'a sorter \<Rightarrow> 'a chunk_to_sort list \<Rightarrow> addr option \<Rightarrow> bool" where
  "sorter_ok_above this_thread s cs b \<longleftrightarrow>
     stack_above (chunks s) cs b \<and> can_acquire this_thread (chunks s) \<and>
     (\<forall>i\<ge>next_state s. shared_states s i = None)"

definition extends :: "'a sorter \<Rightarrow> 'a sorter \<Rightarrow> bool" where
  "extends s s' \<longleftrightarrow>
     next_state s \<le> next_state s' \<and> (\<forall>i<next_state s. shared_states s' i = shared_states s i) \<and>
     max_thread_count s' = max_thread_count s \<and> threads s \<le> threads s' \<and>
     threads s' \<le> max (threads s) (unat (max_thread_count s))"

section \<open>Properties of the partition\<close>

lemma skip_true_le: "first \<le> last' \<Longrightarrow> skip_true pred xs first last' \<le> last'"
  by (induction pred xs first last' rule: skip_true.induct) (subst skip_true.simps, auto)

lemma skip_true_pred:
  "first \<le> i \<Longrightarrow> i < skip_true pred xs first last' \<Longrightarrow> pred (xs ! i)"
proof (induction pred xs first last' rule: skip_true.induct)
  case (1 pred xs first last')
  show ?case
  proof (cases "first < last' \<and> pred (xs ! first)")
    case True
    then have eq: "skip_true pred xs first last' = skip_true pred xs (Suc first) last'"
      by (subst skip_true.simps) simp
    show ?thesis
    proof (cases "i = first")
      case True
      with \<open>first < last' \<and> pred (xs ! first)\<close> show ?thesis by simp
    next
      case False
      with 1 True eq show ?thesis by simp
    qed
  next
    case False
    then have "skip_true pred xs first last' = first"
      by (subst skip_true.simps) auto
    with "1.prems" show ?thesis by simp
  qed
qed

lemma skip_true_stop:
  "skip_true pred xs first last' < last' \<Longrightarrow> \<not> pred (xs ! skip_true pred xs first last')"
proof (induction pred xs first last' rule: skip_true.induct)
  case (1 pred xs first last')
  show ?case
  proof (cases "first < last' \<and> pred (xs ! first)")
    case True
    then have "skip_true pred xs first last' = skip_true pred xs (Suc first) last'"
      by (subst skip_true.simps) simp
    with 1 True show ?thesis by simp
  next
    case False
    then have eq: "skip_true pred xs first last' = first"
      by (subst skip_true.simps) auto
    with "1.prems" False show ?thesis by simp
  qed
qed

lemma skip_false_ge: "first \<le> last' \<Longrightarrow> first \<le> skip_false pred xs first last'"
  by (induction pred xs first last' rule: skip_false.induct) (subst skip_false.simps, auto)

lemma skip_false_pred:
  "skip_false pred xs first last' < i \<Longrightarrow> i \<le> last' \<Longrightarrow> \<not> pred (xs ! i)"
proof (induction pred xs first last' rule: skip_false.induct)
  case (1 pred xs first last')
  show ?case
  proof (cases "first < last' \<and> \<not> pred (xs ! last')")
    case True
    then have eq: "skip_false pred xs first last' = skip_false pred xs first (last' - 1)"
      by (subst skip_false.simps) simp
    show ?thesis
    proof (cases "i = last'")
      case True
      with \<open>first < last' \<and> \<not> pred (xs ! last')\<close> show ?thesis by simp
    next
      case False
      with 1 True eq show ?thesis by simp
    qed
  next
    case False
    then have "skip_false pred xs first last' = last'"
      by (subst skip_false.simps) auto
    with "1.prems" show ?thesis by simp
  qed
qed

lemma skip_false_stop:
  "first < skip_false pred xs first last' \<Longrightarrow> pred (xs ! skip_false pred xs first last')"
proof (induction pred xs first last' rule: skip_false.induct)
  case (1 pred xs first last')
  show ?case
  proof (cases "first < last' \<and> \<not> pred (xs ! last')")
    case True
    then have "skip_false pred xs first last' = skip_false pred xs first (last' - 1)"
      by (subst skip_false.simps) simp
    with 1 True show ?thesis by simp
  next
    case False
    then have eq: "skip_false pred xs first last' = last'"
      by (subst skip_false.simps) auto
    with "1.prems" False show ?thesis by auto
  qed
qed

lemma length_iter_swap [simp]: "length (iter_swap xs i j) = length xs"
  by (simp add: iter_swap_def)

lemma mset_iter_swap:
  "i < length xs \<Longrightarrow> j < length xs \<Longrightarrow> mset (iter_swap xs i j) = mset xs"
  by (simp add: iter_swap_def mset_swap)

lemma nth_iter_swap:
  "i < length xs \<Longrightarrow> j < length xs \<Longrightarrow> k < length xs \<Longrightarrow>
   iter_swap xs i j ! k = (if k = j then xs ! i else if k = i then xs ! j else xs ! k)"
  by (simp add: iter_swap_def nth_list_update)

lemma partition_loop_correct:
  assumes "first \<le> last'" "last' \<le> length xs"
    and "\<forall>i<first. pred (xs ! i)"
    and "\<forall>i. last' \<le> i \<and> i < length xs \<longrightarrow> \<not> pred (xs ! i)"
  shows "mset (fst (partition_loop pred xs first last')) = mset xs \<and>
         partitioned_at pred (fst (partition_loop pred xs first last'))
           (snd (partition_loop pred xs first last'))"
  using assms
proof (induction pred xs first last' rule: partition_loop.induct)
  case (1 pred xs first last')
  define first1 where "first1 = skip_true pred xs first last'"
  define last1 where "last1 = skip_false pred xs first1 (last' - 1)"
  have f1: "first \<le> first1" "first1 \<le> last'"
    using "1.prems"(1) by (simp_all add: first1_def skip_true_bounds skip_true_le)
  have below: "pred (xs ! i)" if "i < first1" for i
    using that "1.prems"(3) skip_true_pred [of first i pred xs last']
    by (cases "i < first") (auto simp: first1_def)
  show ?case
  proof (cases "first1 \<ge> last'")
    case True
    then have res: "partition_loop pred xs first last' = (xs, first1)"
      by (subst partition_loop.simps) (simp add: first1_def Let_def)
    from True f1 have "first1 = last'" by simp
    with res below "1.prems" show ?thesis
      by (simp add: partitioned_at_def)
  next
    case False
    then have lt: "first1 < last'" by simp
    then have l1: "first1 \<le> last1" "last1 \<le> last' - 1"
      by (simp_all add: last1_def skip_false_ge skip_false_bounds)
    have stop1: "\<not> pred (xs ! first1)"
      using lt skip_true_stop [of pred xs first last'] by (simp add: first1_def)
    have above: "\<not> pred (xs ! i)" if "last1 < i" "i < length xs" for i
    proof (cases "i \<le> last' - 1")
      case True
      with that show ?thesis
        using skip_false_pred [of pred xs first1 "last' - 1" i] by (simp add: last1_def)
    next
      case False
      with that "1.prems"(4) show ?thesis by simp
    qed
    show ?thesis
    proof (cases "first1 \<ge> last1")
      case True
      then have res: "partition_loop pred xs first last' = (xs, first1)"
        using False by (subst partition_loop.simps) (simp add: first1_def last1_def Let_def)
      from True l1 have eq: "last1 = first1" by simp
      have "\<not> pred (xs ! i)" if "first1 \<le> i" "i < length xs" for i
        using that above [of i] stop1 eq by (cases "i = first1") auto
      with res below lt "1.prems"(2) show ?thesis
        by (simp add: partitioned_at_def)
    next
      case False
      then have lt1: "first1 < last1" by simp
      have res: "partition_loop pred xs first last' =
                 partition_loop pred (iter_swap xs first1 last1) (Suc first1) last1"
        using \<open>\<not> first1 \<ge> last'\<close> False
        by (subst partition_loop.simps) (simp add: first1_def last1_def Let_def)
      have len: "first1 < length xs" "last1 < length xs"
        using lt lt1 l1 "1.prems"(2) by simp_all
      have stop2: "pred (xs ! last1)"
        using lt1 skip_false_stop [of first1 pred xs "last' - 1"] by (simp add: last1_def)
      have p1: "\<forall>i<Suc first1. pred (iter_swap xs first1 last1 ! i)"
        using below stop2 len lt1 by (auto simp: nth_iter_swap less_Suc_eq)
      have p2: "\<forall>i. last1 \<le> i \<and> i < length (iter_swap xs first1 last1)
                  \<longrightarrow> \<not> pred (iter_swap xs first1 last1 ! i)"
      proof (intro allI impI)
        fix i assume i: "last1 \<le> i \<and> i < length (iter_swap xs first1 last1)"
        show "\<not> pred (iter_swap xs first1 last1 ! i)"
        proof (cases "i = last1")
          case True
          with len stop1 show ?thesis by (simp add: nth_iter_swap)
        next
          case False
          with i lt1 len above [of i] show ?thesis by (simp add: nth_iter_swap)
        qed
      qed
      have IH: "mset (fst (partition_loop pred (iter_swap xs first1 last1) (Suc first1) last1))
                  = mset (iter_swap xs first1 last1) \<and>
                partitioned_at pred
                  (fst (partition_loop pred (iter_swap xs first1 last1) (Suc first1) last1))
                  (snd (partition_loop pred (iter_swap xs first1 last1) (Suc first1) last1))"
        using "1.IH" [OF first1_def _ last1_def False _ _ p1 p2] \<open>\<not> first1 \<ge> last'\<close> lt1 len
        by simp
      with res len show ?thesis
        by (simp add: mset_iter_swap)
    qed
  qed
qed

lemma std_partition_correct:
  "mset (fst (std_partition pred xs)) = mset xs \<and>
   partitioned_at pred (fst (std_partition pred xs)) (snd (std_partition pred xs))"
  unfolding std_partition_def
  by (rule partition_loop_correct) auto

lemma std_partition_mset: "mset (fst (std_partition pred xs)) = mset xs"
  using std_partition_correct [of pred xs] by simp

lemma std_partition_partitioned:
  "partitioned_at pred (fst (std_partition pred xs)) (snd (std_partition pred xs))"
  using std_partition_correct [of pred xs] by simp

lemma partitioned_at_filter:
  assumes "partitioned_at pred ys k"
  shows "filter pred ys = take k ys" and "filter (\<lambda>x. \<not> pred x) ys = drop k ys"
proof -
  have t: "\<forall>x\<in>set (take k ys). pred x"
    using assms by (auto simp: partitioned_at_def in_set_conv_nth)
  have d: "\<forall>x\<in>set (drop k ys). \<not> pred x"
    using assms by (auto simp: partitioned_at_def in_set_conv_nth)
  have "filter pred ys = filter pred (take k ys) @ filter pred (drop k ys)"
    by (metis append_take_drop_id filter_append)
  with t d show "filter pred ys = take k ys"
    by (simp add: filter_id_conv filter_empty_conv)
  have "filter (\<lambda>x. \<not> pred x) ys =
        filter (\<lambda>x. \<not> pred x) (take k ys) @ filter (\<lambda>x. \<not> pred x) (drop k ys)"
    by (metis append_take_drop_id filter_append)
  with t d show "filter (\<lambda>x. \<not> pred x) ys = drop k ys"
    by (simp add: filter_id_conv filter_empty_conv)
qed

lemma partition_step_filter:
  "mset (fst (partition_step p xs)) = filter_mset (\<lambda>v. v < p) (mset xs)"
  "mset (snd (partition_step p xs)) = filter_mset (\<lambda>v. \<not> v < p) (mset xs)"
proof -
  define parted where "parted = fst (std_partition (\<lambda>v. v < p) xs)"
  define k where "k = snd (std_partition (\<lambda>v. v < p) xs)"
  have ps: "partition_step p xs = (take k parted, drop k parted)"
    by (simp add: partition_step_def parted_def k_def split_beta)
  have part: "partitioned_at (\<lambda>v. v < p) parted k"
    unfolding parted_def k_def by (rule std_partition_partitioned)
  have ms: "mset parted = mset xs"
    unfolding parted_def by (rule std_partition_mset)
  have "mset (take k parted) = mset (filter (\<lambda>v. v < p) parted)"
    using partitioned_at_filter(1) [OF part] by simp
  also have "\<dots> = filter_mset (\<lambda>v. v < p) (mset xs)"
    using ms by simp
  finally show "mset (fst (partition_step p xs)) = filter_mset (\<lambda>v. v < p) (mset xs)"
    using ps by simp
  have "mset (drop k parted) = mset (filter (\<lambda>v. \<not> v < p) parted)"
    using partitioned_at_filter(2) [OF part] by simp
  also have "\<dots> = filter_mset (\<lambda>v. \<not> v < p) (mset xs)"
    using ms by simp
  finally show "mset (snd (partition_step p xs)) = filter_mset (\<lambda>v. \<not> v < p) (mset xs)"
    using ps by simp
qed

lemma partition_step_mset:
  "mset (fst (partition_step p xs)) + mset (snd (partition_step p xs)) = mset xs"
  by (simp add: partition_step_filter)

lemma partition_step_length:
  "length (fst (partition_step p xs)) \<le> length xs"
  "length (snd (partition_step p xs)) \<le> length xs"
proof -
  have "size (mset (fst (partition_step p xs))) \<le> size (mset xs)"
    unfolding partition_step_filter by (rule size_filter_mset_lesseq)
  then show "length (fst (partition_step p xs)) \<le> length xs" by simp
  have "size (mset (snd (partition_step p xs))) \<le> size (mset xs)"
    unfolding partition_step_filter by (rule size_filter_mset_lesseq)
  then show "length (snd (partition_step p xs)) \<le> length xs" by simp
qed

text \<open>
  The list \<open>do_sort\<close> returns, as a function of its argument alone: the value of the
  lower future is what \<open>sort_chunk\<close> has stored in it, the result of \<open>do_sort\<close> on the
  chunk's data. \<open>do_sort_returns\<close> below proves that the run computes it.
\<close>

function quick_sort :: "'a::ord list \<Rightarrow> 'a list" where
  "quick_sort [] = []"
| "quick_sort (pivot_val # chunk_data) =
     quick_sort (fst (partition_step pivot_val chunk_data)) @ [pivot_val] @
     quick_sort (snd (partition_step pivot_val chunk_data))"
  by pat_completeness auto
termination
  by (relation "measure length") (simp_all add: partition_step_length less_Suc_eq_le)

lemma mset_quick_sort: "mset (quick_sort xs) = mset xs"
proof (induction xs rule: quick_sort.induct)
  case 1
  show ?case by simp
next
  case (2 p xs)
  then show ?case
    using partition_step_mset [of p xs] by (simp add: ac_simps)
qed


lemma set_quick_sort: "set (quick_sort xs) = set xs"
  using mset_quick_sort [of xs] by (metis set_mset_mset)

lemma sorted_quick_sort: "sorted (quick_sort (xs :: 'a::linorder list))"
proof (induction xs rule: quick_sort.induct)
  case 1
  show ?case by simp
next
  case (2 p rest)
  have lo: "\<forall>x\<in>set (fst (partition_step p rest)). x < p"
    using partition_step_filter(1) [of p rest]
    by (metis (mono_tags, lifting) mem_Collect_eq set_mset_filter set_mset_mset)
  have hi: "\<forall>x\<in>set (snd (partition_step p rest)). p \<le> x"
    using partition_step_filter(2) [of p rest]
    by (metis (mono_tags, lifting) mem_Collect_eq set_mset_filter set_mset_mset not_less)
  from 2 lo hi show ?case
    by (fastforce simp: sorted_append set_quick_sort)
qed

section \<open>Properties of the stack operations\<close>

lemma node_path_heap_cong:
  "node_path h p as b \<Longrightarrow> (\<forall>a\<in>set as. h' a = h a) \<Longrightarrow> node_path h' p as b"
  by (induction as arbitrary: p) (auto split: option.splits)

lemma find_None_slot: "find P xs = None \<longleftrightarrow> \<not> list_ex P xs"
  by (induction xs) auto

lemma hp_owner_full:
  assumes "\<not> slot_free tbl"
  shows "hp_owner t tbl = Inl No_hazard_pointers_available"
proof -
  have "find (\<lambda>i. id' (tbl i) = None) [0..<max_hazard_pointers] = None"
    using assms by (simp add: slot_free_def find_None_slot)
  then show ?thesis by (simp add: hp_owner_def)
qed

lemma hp_owner_free:
  "slot_free tbl \<Longrightarrow>
   \<exists>i. i < max_hazard_pointers \<and> id' (tbl i) = None \<and>
       hp_owner t tbl = Inr (i, tbl(i := (tbl i)\<lparr>id' := Some t\<rparr>))"
proof -
  assume "slot_free tbl"
  then obtain i where "find (\<lambda>i. id' (tbl i) = None) [0..<max_hazard_pointers] = Some i"
    by (cases "find (\<lambda>i. id' (tbl i) = None) [0..<max_hazard_pointers]")
       (auto simp: slot_free_def find_None_slot)
  moreover from this have "i < max_hazard_pointers \<and> id' (tbl i) = None"
    by (auto simp: find_Some_iff)
  ultimately show ?thesis by (simp add: hp_owner_def)
qed

lemma get_hazard_pointer_full:
  "hazard w t = None \<Longrightarrow> \<not> slot_free (hazard_pointers w) \<Longrightarrow>
   get_hazard_pointer_for_current_thread t w = Inl No_hazard_pointers_available"
  by (simp add: get_hazard_pointer_for_current_thread_def hp_owner_full)

lemma get_hazard_pointer_ok:
  assumes "can_acquire t w"
  shows "\<exists>hp tbl. get_hazard_pointer_for_current_thread t w =
           Inr (hp, w\<lparr>hazard_pointers := tbl, hazard := (hazard w)(t \<mapsto> hp)\<rparr>)"
proof (cases "hazard w t")
  case None
  with assms have "slot_free (hazard_pointers w)" by (simp add: can_acquire_def)
  from hp_owner_free [OF this, of t] None show ?thesis
    by (auto simp: get_hazard_pointer_for_current_thread_def)
next
  case (Some hp)
  then have "w\<lparr>hazard_pointers := hazard_pointers w, hazard := (hazard w)(t \<mapsto> hp)\<rparr> = w"
    by (simp add: fun_upd_idem)
  with Some show ?thesis
    by (auto simp: get_hazard_pointer_for_current_thread_def intro!: exI [of _ "hazard_pointers w"])
qed

lemma delete_nodes_loop_frame:
  "head (delete_nodes_loop cur w) = head w \<and>
   next_addr (delete_nodes_loop cur w) = next_addr w \<and>
   hazard_pointers (delete_nodes_loop cur w) = hazard_pointers w \<and>
   hazard (delete_nodes_loop cur w) = hazard w"
  by (induction cur arbitrary: w) (simp_all add: delete_def add_to_reclaim_list_def)

lemma delete_nodes_loop_heap:
  "a \<notin> set cur \<Longrightarrow> heap (delete_nodes_loop cur w) a = heap w a"
  by (induction cur arbitrary: w) (simp_all add: delete_def add_to_reclaim_list_def)

lemma delete_nodes_loop_reclaim:
  "set (nodes_to_reclaim (delete_nodes_loop cur w)) \<subseteq> set cur \<union> set (nodes_to_reclaim w)"
proof (induction cur arbitrary: w)
  case Nil
  show ?case by simp
next
  case (Cons current rest)
  define w' where "w' = (if \<not> outstanding_hazard_pointers_for (Some current) (hazard_pointers w)
        then delete current w else add_to_reclaim_list current w)"
  have "set (nodes_to_reclaim w') \<subseteq> insert current (set (nodes_to_reclaim w))"
    by (auto simp: w'_def delete_def add_to_reclaim_list_def)
  moreover have "set (nodes_to_reclaim (delete_nodes_loop rest w'))
      \<subseteq> set rest \<union> set (nodes_to_reclaim w')"
    by (rule Cons.IH)
  ultimately show ?case
    unfolding delete_nodes_loop.simps w'_def [symmetric] by auto
qed

lemma linked_above_push:
  assumes "linked_above w as vs b"
  shows "linked_above (push v w) (next_addr w # as) (v # vs) b"
proof -
  have fresh: "next_addr w \<notin> set as"
    using assms by (auto simp: linked_above_def)
  have "node_path ((heap w)(next_addr w \<mapsto> \<lparr>data = Some v, next' = head w\<rparr>)) (head w) as b"
    using assms fresh by (auto simp: linked_above_def intro: node_path_heap_cong)
  moreover have "map (\<lambda>a. map_option data
        (((heap w)(next_addr w \<mapsto> \<lparr>data = Some v, next' = head w\<rparr>)) a)) as
      = map (\<lambda>a. map_option data (heap w a)) as"
    using fresh by (intro map_cong) auto
  moreover have "map (\<lambda>a. map_option data (heap w a)) as = map (\<lambda>v. Some (Some v)) vs"
    "distinct as" "\<forall>a\<in>set as. a < next_addr w"
    "\<forall>a\<in>set (nodes_to_reclaim w). a < next_addr w \<and> a \<notin> set as"
    using assms by (simp_all add: linked_above_def)
  ultimately show ?thesis
    using fresh by (auto simp: linked_above_def push_def Let_def less_Suc_eq)
qed

lemma stack_above_push: "stack_above w vs b \<Longrightarrow> stack_above (push v w) (v # vs) b"
  by (auto simp: stack_above_def dest: linked_above_push)

lemma node_chain_path: "node_chain h p as = node_path h p as None"
  by (induction as arbitrary: p) (auto split: option.splits)

lemma stack_is_above: "stack_is w vs = stack_above w vs None"
  by (simp add: stack_is_def stack_above_def linked_as_def linked_above_def node_chain_path)

lemma stack_is_push: "stack_is w vs \<Longrightarrow> stack_is (push v w) (v # vs)"
  by (simp add: stack_is_above stack_above_push)

lemma push_frame:
  "hazard (push v w) = hazard w \<and> hazard_pointers (push v w) = hazard_pointers w \<and>
   nodes_to_reclaim (push v w) = nodes_to_reclaim w"
  by (simp add: push_def Let_def)

lemma can_acquire_push: "can_acquire t (push v w) = can_acquire t w"
  by (simp add: can_acquire_def push_frame)


lemma pop_full:
  "hazard w t = None \<Longrightarrow> \<not> slot_free (hazard_pointers w) \<Longrightarrow>
   pop t w = Inl No_hazard_pointers_available"
  by (simp add: pop_def get_hazard_pointer_full)

lemma pop_empty:
  assumes "head w = None" "can_acquire t w"
  shows "\<exists>w'. pop t w = Inr (None, w') \<and> head w' = None \<and> heap w' = heap w \<and>
           next_addr w' = next_addr w \<and> nodes_to_reclaim w' = nodes_to_reclaim w \<and>
           hazard w' t \<noteq> None"
proof -
  from get_hazard_pointer_ok [OF assms(2)] obtain hp tbl where
    "get_hazard_pointer_for_current_thread t w =
       Inr (hp, w\<lparr>hazard_pointers := tbl, hazard := (hazard w)(t \<mapsto> hp)\<rparr>)"
    by blast
  with assms(1) show ?thesis
    by (simp add: pop_def Let_def store_def)
qed

lemma pop_linked_above:
  assumes "linked_above w (a # as) (v # vs) b" "can_acquire t w"
  shows "\<exists>w'. pop t w = Inr (Some v, w') \<and> linked_above w' as vs b \<and> hazard w' t \<noteq> None"
proof -
  from get_hazard_pointer_ok [OF assms(2)] obtain hp tbl where
    get: "get_hazard_pointer_for_current_thread t w =
       Inr (hp, w\<lparr>hazard_pointers := tbl, hazard := (hazard w)(t \<mapsto> hp)\<rparr>)"
    by blast
  from assms(1) obtain nd where
    hd: "head w = Some a" and nd: "heap w a = Some nd" and ch: "node_path (heap w) (next' nd) as b"
    by (auto simp: linked_above_def split: option.splits)
  from assms(1) nd have dv: "data nd = Some v"
    and vals: "map (\<lambda>a. map_option data (heap w a)) as = map (\<lambda>v. Some (Some v)) vs"
    and dist: "a \<notin> set as" "distinct as"
    and low: "\<forall>x\<in>set as. x < next_addr w"
    and rec: "\<forall>x\<in>set (nodes_to_reclaim w). x < next_addr w \<and> x \<noteq> a \<and> x \<notin> set as"
    by (auto simp: linked_above_def)
  define w1 where "w1 = w\<lparr>hazard_pointers := tbl, hazard := (hazard w)(t \<mapsto> hp)\<rparr>"
  define w4 where "w4 = store hp None ((store hp (Some a) w1)\<lparr>head := next' nd\<rparr>)"
  define w5 where "w5 = w4\<lparr>heap := (heap w4)(a \<mapsto> nd\<lparr>data := None\<rparr>)\<rparr>"
  define w6 where "w6 = (if outstanding_hazard_pointers_for (Some a) (hazard_pointers w5)
      then reclaim_later a w5 else delete a w5)"
  define w7 where "w7 = delete_nodes_with_no_hazards w6"
  have res: "pop t w = Inr (Some v, w7)"
    using get hd nd dv
    by (simp add: pop_def Let_def store_def w1_def w4_def w5_def w6_def w7_def)
  have w6: "head w6 = next' nd" "next_addr w6 = next_addr w" "hazard w6 t = Some hp"
    "\<forall>x. x \<noteq> a \<longrightarrow> heap w6 x = heap w x"
    "set (nodes_to_reclaim w6) \<subseteq> insert a (set (nodes_to_reclaim w))"
    by (auto simp: w6_def w5_def w4_def w1_def store_def reclaim_later_def
        add_to_reclaim_list_def delete_def)
  have w7: "head w7 = next' nd" "next_addr w7 = next_addr w" "hazard w7 t = Some hp"
    using w6 by (simp_all add: w7_def delete_nodes_with_no_hazards_def delete_nodes_loop_frame)
  have heap7: "heap w7 x = heap w x" if "x \<in> set as" for x
  proof -
    from that dist rec w6(5) have "x \<notin> set (nodes_to_reclaim w6)" "x \<noteq> a" by auto
    then show ?thesis
      using w6(4) by (simp add: w7_def delete_nodes_with_no_hazards_def delete_nodes_loop_heap)
  qed
  have rec7: "set (nodes_to_reclaim w7) \<subseteq> insert a (set (nodes_to_reclaim w))"
    using delete_nodes_loop_reclaim [of "nodes_to_reclaim w6" "w6\<lparr>nodes_to_reclaim := []\<rparr>"] w6(5)
    by (auto simp: w7_def delete_nodes_with_no_hazards_def)
  have "node_path (heap w7) (next' nd) as b"
    using ch heap7 by (auto intro: node_path_heap_cong)
  moreover have "map (\<lambda>a. map_option data (heap w7 a)) as = map (\<lambda>a. map_option data (heap w a)) as"
    using heap7 by (intro map_cong) auto
  moreover have "\<forall>x\<in>set (nodes_to_reclaim w7). x < next_addr w \<and> x \<notin> set as"
  proof
    fix x assume "x \<in> set (nodes_to_reclaim w7)"
    with rec7 have "x = a \<or> x \<in> set (nodes_to_reclaim w)" by auto
    moreover have "a < next_addr w" using assms(1) by (simp add: linked_above_def)
    ultimately show "x < next_addr w \<and> x \<notin> set as" using rec dist by auto
  qed
  ultimately have "linked_above w7 as vs b"
    using vals dist low w7 by (simp add: linked_above_def)
  with res w7 show ?thesis by auto
qed

lemma pop_stack_above:
  assumes "stack_above w (v # vs) b" "can_acquire t w"
  shows "\<exists>w'. pop t w = Inr (Some v, w') \<and> stack_above w' vs b \<and> hazard w' t \<noteq> None"
proof -
  from assms(1) obtain as' where "linked_above w as' (v # vs) b" by (auto simp: stack_above_def)
  moreover from this obtain a as where "as' = a # as"
    by (cases as') (auto simp: linked_above_def)
  ultimately show ?thesis
    using pop_linked_above [OF _ assms(2), of a as v vs b] by (auto simp: stack_above_def)
qed

lemma pop_stack_is:
  assumes "stack_is w (v # vs)" "can_acquire t w"
  shows "\<exists>w'. pop t w = Inr (Some v, w') \<and> stack_is w' vs \<and> hazard w' t \<noteq> None"
  using pop_stack_above [of w v vs None t] assms by (simp add: stack_is_above)

lemma stack_is_Nil:
  "stack_is w [] \<longleftrightarrow> head w = None \<and> (\<forall>a\<in>set (nodes_to_reclaim w). a < next_addr w)"
  by (auto simp: stack_is_def linked_as_def)

lemma delete_nodes_loop_result:
  "nodes_to_reclaim (delete_nodes_loop cur w) =
     rev (filter (\<lambda>a. outstanding_hazard_pointers_for (Some a) (hazard_pointers w)) cur)
       @ nodes_to_reclaim w \<and>
   heap (delete_nodes_loop cur w) =
     (\<lambda>a. if a \<in> set cur \<and> \<not> outstanding_hazard_pointers_for (Some a) (hazard_pointers w)
          then None else heap w a)"
proof (induction cur arbitrary: w)
  case Nil
  show ?case by simp
next
  case (Cons current rest)
  show ?case
    by (cases "outstanding_hazard_pointers_for (Some current) (hazard_pointers w)")
       (auto simp: Cons.IH delete_def add_to_reclaim_list_def fun_eq_iff)
qed

lemma slot_free_initial: "slot_free (hazard_pointers (initial_world :: 'T world))"
  by (auto simp: slot_free_def initial_world_def max_hazard_pointers_def list_ex_iff intro!: exI [of _ 0])

lemma hazard_frame:
  "hazard (store hp p w) = hazard w"
  "hazard (reclaim_later a w) = hazard w"
  "hazard (delete a w) = hazard w"
  "hazard (delete_nodes_with_no_hazards w) = hazard w"
  by (simp_all add: store_def reclaim_later_def add_to_reclaim_list_def delete_def
      delete_nodes_with_no_hazards_def delete_nodes_loop_frame)

lemma pop_keeps_slot:
  assumes "pop t w = Inr (r, w')"
  shows "hazard w' t \<noteq> None"
proof -
  from assms have "can_acquire t w"
    using pop_full [of w t] by (auto simp: can_acquire_def)
  from get_hazard_pointer_ok [OF this] obtain hp tbl where
    get: "get_hazard_pointer_for_current_thread t w =
       Inr (hp, w\<lparr>hazard_pointers := tbl, hazard := (hazard w)(t \<mapsto> hp)\<rparr>)"
    by blast
  define w1 where "w1 = w\<lparr>hazard_pointers := tbl, hazard := (hazard w)(t \<mapsto> hp)\<rparr>"
  have h1: "hazard w1 t = Some hp" by (simp add: w1_def)
  show ?thesis
  proof (cases "head w1")
    case None
    with assms get have "w' = store hp None (store hp None w1)"
      by (simp add: pop_def Let_def w1_def)
    with h1 show ?thesis by (simp add: hazard_frame)
  next
    case (Some p)
    show ?thesis
    proof (cases "heap (store hp (Some p) w1) p")
      case None
      with assms get Some show ?thesis
        by (simp add: pop_def Let_def w1_def)
    next
      case (Some nd)
      with assms get \<open>head w1 = Some p\<close> have "hazard w' = hazard w1"
        by (auto simp: pop_def Let_def w1_def hazard_frame)
      with h1 show ?thesis by simp
    qed
  qed
qed

lemma can_acquire_initial: "can_acquire t (initial_world :: 'T world)"
  by (simp add: can_acquire_def slot_free_initial)

lemma stack_is_initial: "stack_is (initial_world :: 'T world) []"
  by (simp add: stack_is_Nil initial_world_def)

lemma slot_free_exhausted: "\<not> slot_free (hazard_pointers (exhausted_world :: 'T world))"
  by (simp add: slot_free_def exhausted_world_def list_ex_iff)

lemma sweep_result:
  "hazard_pointers (delete_nodes_with_no_hazards w) = hazard_pointers w"
  "nodes_to_reclaim (delete_nodes_with_no_hazards w) =
     rev (filter (\<lambda>a. outstanding_hazard_pointers_for (Some a) (hazard_pointers w))
            (nodes_to_reclaim w))"
  "heap (delete_nodes_with_no_hazards w) =
     (\<lambda>a. if a \<in> set (nodes_to_reclaim w) \<and>
              \<not> outstanding_hazard_pointers_for (Some a) (hazard_pointers w)
          then None else heap w a)"
  by (simp_all add: delete_nodes_with_no_hazards_def delete_nodes_loop_frame
      delete_nodes_loop_result fun_eq_iff)

lemma pop_unfold:
  assumes "pop t w = Inr (r, w')" and "head w = Some p"
  obtains nd w5 where "heap w p = Some nd" and "r = data nd"
    and "heap w5 = (heap w)(p \<mapsto> nd\<lparr>data := None\<rparr>)"
    and "nodes_to_reclaim w5 = nodes_to_reclaim w"
    and "w' = delete_nodes_with_no_hazards
            (if outstanding_hazard_pointers_for (Some p) (hazard_pointers w5)
             then reclaim_later p w5 else delete p w5)"
proof -
  from assms(1) have "can_acquire t w"
    using pop_full [of w t] by (auto simp: can_acquire_def)
  from get_hazard_pointer_ok [OF this] obtain hp tbl where
    get: "get_hazard_pointer_for_current_thread t w =
       Inr (hp, w\<lparr>hazard_pointers := tbl, hazard := (hazard w)(t \<mapsto> hp)\<rparr>)"
    by blast
  define w1 where "w1 = w\<lparr>hazard_pointers := tbl, hazard := (hazard w)(t \<mapsto> hp)\<rparr>"
  show ?thesis
  proof (cases "heap w p")
    case None
    with assms get show ?thesis
      by (simp add: pop_def Let_def store_def)
  next
    case (Some nd)
    define w4 where "w4 = store hp None ((store hp (Some p) w1)\<lparr>head := next' nd\<rparr>)"
    define w5 where "w5 = w4\<lparr>heap := (heap w4)(p \<mapsto> nd\<lparr>data := None\<rparr>)\<rparr>"
    have "heap w5 = (heap w)(p \<mapsto> nd\<lparr>data := None\<rparr>)"
      "nodes_to_reclaim w5 = nodes_to_reclaim w"
      by (simp_all add: w5_def w4_def w1_def store_def)
    moreover have "pop t w = Inr (data nd, delete_nodes_with_no_hazards
            (if outstanding_hazard_pointers_for (Some p) (hazard_pointers w5)
             then reclaim_later p w5 else delete p w5))"
      using assms(2) get Some
      by (simp add: pop_def Let_def store_def w5_def w4_def w1_def)
    with assms(1) have "r = data nd \<and> w' = delete_nodes_with_no_hazards
            (if outstanding_hazard_pointers_for (Some p) (hazard_pointers w5)
             then reclaim_later p w5 else delete p w5)"
      by simp
    ultimately show ?thesis using Some that by blast
  qed
qed

lemma pop_empty_heap:
  assumes "pop t w = Inr (r, w')" and "head w = None"
  shows "heap w' = heap w"
proof -
  from assms(1) have "can_acquire t w"
    using pop_full [of w t] by (auto simp: can_acquire_def)
  from pop_empty [OF assms(2) this] assms(1) show ?thesis by auto
qed

lemma watched_world_pop:
  "map_sum id (\<lambda>(r, w'). (r, head w', nodes_to_reclaim w', map_option data (heap w' 1),
        outstanding_hazard_pointers_for (Some 1) (hazard_pointers w')))
     (pop 0 watched_world) = Inr (Some 7, None, [1], Some None, True)"
  by code_simp

section \<open>Properties of the sorter\<close>

lemma do_sort_Cons:
  "do_sort (Suc m) t (p # rest) s =
      (case do_sort m t (snd (partition_step p rest)) (offloaded p rest s) of
           None \<Rightarrow> None
         | Some (Inl e) \<Rightarrow> Some (Inl e)
         | Some (Inr (new_higher, s4)) \<Rightarrow>
             (case wait_for_lower m t (next_state s) s4 of
                None \<Rightarrow> None
              | Some (Inl e) \<Rightarrow> Some (Inl e)
              | Some (Inr (new_lower, s5)) \<Rightarrow>
                  Some (Inr (new_lower @ [p] @ new_higher, s5))))"
  unfolding offloaded_def by (simp add: Let_def case_prod_beta)

lemmas machine_simps = do_sort.simps wait_for_lower.simps try_sort_chunk.simps sort_chunk.simps

lemma fuel_Suc:
  "(\<forall>t xs (s::'a::ord sorter) r. do_sort n t xs s = Some r \<longrightarrow> do_sort (Suc n) t xs s = Some r) \<and>
   (\<forall>t f (s::'a sorter) r. wait_for_lower n t f s = Some r \<longrightarrow> wait_for_lower (Suc n) t f s = Some r) \<and>
   (\<forall>t (s::'a sorter) r. try_sort_chunk n t s = Some r \<longrightarrow> try_sort_chunk (Suc n) t s = Some r) \<and>
   (\<forall>t c (s::'a sorter) r. sort_chunk n t c s = Some r \<longrightarrow> sort_chunk (Suc n) t c s = Some r)"
proof (induction n)
  case 0
  show ?case by simp
next
  case (Suc n)
  have d: "do_sort (Suc n) t xs s = Some r" if "do_sort n t xs s = Some r"
    for t xs and s :: "'a sorter" and r
    using Suc that by blast
  have w: "wait_for_lower (Suc n) t f s = Some r" if "wait_for_lower n t f s = Some r"
    for t f and s :: "'a sorter" and r
    using Suc that by blast
  have y: "try_sort_chunk (Suc n) t s = Some r" if "try_sort_chunk n t s = Some r"
    for t and s :: "'a sorter" and r
    using Suc that by blast
  have c: "sort_chunk (Suc n) t c s = Some r" if "sort_chunk n t c s = Some r"
    for t c and s :: "'a sorter" and r
    using Suc that by blast
  have "do_sort (Suc (Suc n)) t xs s = Some r" if A: "do_sort (Suc n) t xs s = Some r"
    for t xs and s :: "'a sorter" and r
  proof (cases xs)
    case Nil
    with A show ?thesis by simp
  next
    case (Cons p rest)
    define hi where "hi = snd (partition_step p rest)"
    define s3 where "s3 = offloaded p rest s"
    show ?thesis
    proof (cases "do_sort n t hi s3")
      case None
      with A show ?thesis
        unfolding Cons do_sort_Cons hi_def s3_def by simp
    next
      case (Some x)
      note up = d [OF Some]
      show ?thesis
      proof (cases x)
        case (Inl e)
        with A Some up show ?thesis
          unfolding Cons do_sort_Cons hi_def s3_def by auto
      next
        case (Inr hs)
        obtain h s4 where hs: "hs = (h, s4)" by (cases hs)
        show ?thesis
        proof (cases "wait_for_lower n t (next_state s) s4")
          case None
          with A Some Inr hs show ?thesis
            unfolding Cons do_sort_Cons hi_def s3_def by simp
        next
          case (Some z)
          note upw = w [OF Some]
          from A \<open>do_sort n t hi s3 = Some x\<close> up Inr hs Some upw show ?thesis
            unfolding Cons do_sort_Cons hi_def s3_def by (simp del: machine_simps)
        qed
      qed
    qed
  qed
  moreover have "wait_for_lower (Suc (Suc n)) t f s = Some r"
    if A: "wait_for_lower (Suc n) t f s = Some r" for t f and s :: "'a sorter" and r
  proof (cases "shared_states s f")
    case (Some v)
    with A show ?thesis by simp
  next
    case None
    note unset = None
    show ?thesis
    proof (cases "try_sort_chunk n t s")
      case None
      with A unset show ?thesis by simp
    next
      case (Some x)
      note up = y [OF Some]
      show ?thesis
      proof (cases x)
        case (Inl e)
        with A unset Some have "r = Inl e" by simp
        with unset up Inl show ?thesis
          by (simp add: wait_for_lower.simps(2) [of "Suc n"] del: machine_simps)
      next
        case (Inr s')
        with A unset Some have "wait_for_lower n t f s' = Some r" by simp
        from w [OF this] unset up Inr show ?thesis
          by (simp add: wait_for_lower.simps(2) [of "Suc n"] del: machine_simps)
      qed
    qed
  qed
  moreover have "try_sort_chunk (Suc (Suc n)) t s = Some r"
    if A: "try_sort_chunk (Suc n) t s = Some r" for t and s :: "'a sorter" and r
  proof (cases "pop t (chunks s)")
    case (Inl e)
    with A show ?thesis by simp
  next
    case (Inr cw)
    obtain oc w' where cw: "cw = (oc, w')" by (cases cw)
    show ?thesis
    proof (cases oc)
      case None
      with A Inr cw show ?thesis by simp
    next
      case (Some ch)
      with A Inr cw have "sort_chunk n t ch (s\<lparr>chunks := w'\<rparr>) = Some r" by simp
      from c [OF this] Inr cw Some show ?thesis
        by (simp add: try_sort_chunk.simps(2) [of "Suc n"] del: machine_simps)
    qed
  qed
  moreover have "sort_chunk (Suc (Suc n)) t c s = Some r"
    if A: "sort_chunk (Suc n) t c s = Some r" for t c and s :: "'a sorter" and r
  proof (cases "do_sort n t (data' c) s")
    case None
    with A show ?thesis by simp
  next
    case (Some x)
    from A Some have "(case x of Inl e \<Rightarrow> Some (Inl e)
      | Inr (result, s') \<Rightarrow>
          (case shared_states s' (promise c) of
             Some v \<Rightarrow> Some (Inl Promise_already_satisfied)
           | None \<Rightarrow> Some (Inr (s'\<lparr>shared_states := (shared_states s')(promise c \<mapsto> result)\<rparr>))))
      = Some r" by simp
    with d [OF Some] show ?thesis
      by (simp add: sort_chunk.simps(2) [of "Suc n"] del: machine_simps)
  qed
  ultimately show ?case by blast
qed

lemma do_sort_fuel_mono:
  "n \<le> m \<Longrightarrow> do_sort n t xs s = Some r \<Longrightarrow> do_sort m t xs s = Some r"
  by (induction rule: dec_induct) (simp_all add: fuel_Suc del: machine_simps)

lemma do_sort_deterministic:
  assumes "\<forall>m\<ge>n. do_sort m t xs s = Some r" and "do_sort k t xs s = Some r'"
  shows "r' = r"
proof -
  have "do_sort (max n k) t xs s = Some r'"
    using assms(2) by (rule do_sort_fuel_mono [rotated]) simp
  moreover have "do_sort (max n k) t xs s = Some r"
    using assms(1) by simp
  ultimately show ?thesis by simp
qed

lemma offloaded_frame:
  "hazard (chunks (offloaded p rest s)) = hazard (chunks s)"
  "hazard_pointers (chunks (offloaded p rest s)) = hazard_pointers (chunks s)"
  "next_state (offloaded p rest s) = Suc (next_state s)"
  "shared_states (offloaded p rest s) = shared_states s"
  "max_thread_count (offloaded p rest s) = max_thread_count s"
  "threads s \<le> threads (offloaded p rest s)"
  "threads (offloaded p rest s) \<le> max (threads s) (unat (max_thread_count s))"
  "chunks (offloaded p rest s) =
     push \<lparr>data' = fst (partition_step p rest), promise = next_state s\<rparr> (chunks s)"
  by (simp_all add: offloaded_def Let_def push_frame)

lemma do_sort_exhausted:
  "hazard (chunks s) t = None \<Longrightarrow> \<not> slot_free (hazard_pointers (chunks s)) \<Longrightarrow>
   \<forall>i\<ge>next_state s. shared_states s i = None \<Longrightarrow> xs \<noteq> [] \<Longrightarrow>
   \<exists>n. \<forall>m\<ge>n. do_sort m t xs s = Some (Inl No_hazard_pointers_available)"
proof (induction xs arbitrary: s rule: quick_sort.induct)
  case 1
  then show ?case by simp
next
  case (2 p rest)
  define hi where "hi = snd (partition_step p rest)"
  define s3 where "s3 = offloaded p rest s"
  have pre3: "hazard (chunks s3) t = None" "\<not> slot_free (hazard_pointers (chunks s3))"
    "\<forall>i\<ge>next_state s3. shared_states s3 i = None"
    using "2.prems" by (simp_all add: s3_def offloaded_frame push_frame)
  have unset: "shared_states s3 (next_state s) = None"
    using "2.prems"(3) by (simp add: s3_def offloaded_frame)
  show ?case
  proof (cases "hi = []")
    case True
    have "do_sort m t (p # rest) s = Some (Inl No_hazard_pointers_available)" if "3 \<le> m" for m
    proof -
      from that obtain m3 where m: "m = Suc (Suc (Suc m3))"
        by (cases m; cases "m - 1"; cases "m - 2") auto
      have "try_sort_chunk (Suc m3) t s3 = Some (Inl No_hazard_pointers_available)"
        using pre3 by (simp add: pop_full)
      then have "wait_for_lower (Suc (Suc m3)) t (next_state s) s3
          = Some (Inl No_hazard_pointers_available)"
        using unset by (simp del: try_sort_chunk.simps)
      moreover have "do_sort (Suc (Suc m3)) t hi s3 = Some (Inr ([], s3))"
        using True by simp
      ultimately show ?thesis
        unfolding m do_sort_Cons hi_def [symmetric] s3_def [symmetric]
        by (simp del: machine_simps)
    qed
    then show ?thesis by blast
  next
    case False
    from "2.IH"(2) [OF pre3 [unfolded s3_def] False [unfolded hi_def]]
    obtain n1 where r: "\<forall>m\<ge>n1. do_sort m t hi s3 = Some (Inl No_hazard_pointers_available)"
      by (auto simp: hi_def s3_def)
    have "do_sort m t (p # rest) s = Some (Inl No_hazard_pointers_available)" if "Suc n1 \<le> m" for m
    proof -
      from that obtain m1 where m: "m = Suc m1" and "n1 \<le> m1" by (cases m) auto
      with r have "do_sort m1 t hi s3 = Some (Inl No_hazard_pointers_available)" by simp
      then show ?thesis
        unfolding m do_sort_Cons hi_def [symmetric] s3_def [symmetric]
        by (simp del: machine_simps)
    qed
    then show ?thesis by blast
  qed
qed


lemma do_sort_returns_above:
  "sorter_ok_above t s cs b \<Longrightarrow>
   \<exists>n s'. (\<forall>m\<ge>n. do_sort m t xs s = Some (Inr (quick_sort xs, s'))) \<and>
          sorter_ok_above t s' cs b \<and> extends s s'"
proof (induction xs arbitrary: s cs rule: quick_sort.induct)
  case 1
  have "\<forall>m\<ge>1. do_sort m t [] s = Some (Inr (quick_sort [], s))"
  proof (intro allI impI)
    fix m :: nat assume "1 \<le> m"
    then obtain m1 where "m = Suc m1" by (cases m) auto
    then show "do_sort m t [] s = Some (Inr (quick_sort [], s))" by simp
  qed
  moreover have "extends s s" by (simp add: extends_def)
  ultimately show ?case using 1 by blast
next
  case (2 p rest)
  define lo where "lo = fst (partition_step p rest)"
  define hi where "hi = snd (partition_step p rest)"
  define f where "f = next_state s"
  define c where "c = \<lparr>data' = lo, promise = f\<rparr>"
  define s3 where "s3 = offloaded p rest s"
  have s3: "chunks s3 = push c (chunks s)" "next_state s3 = Suc f"
    "shared_states s3 = shared_states s"
    by (simp_all add: s3_def offloaded_frame c_def lo_def f_def)
  have th3: "max_thread_count s3 = max_thread_count s" "threads s \<le> threads s3"
    "threads s3 \<le> max (threads s) (unat (max_thread_count s))"
    unfolding s3_def by (rule offloaded_frame)+
  from "2.prems" have ok3: "sorter_ok_above t s3 (c # cs) b"
    by (simp add: sorter_ok_above_def s3 stack_above_push can_acquire_push f_def)
  from "2.IH"(2) [OF ok3 [unfolded c_def lo_def], folded lo_def hi_def c_def]
  obtain n1 s4 where
    r1: "\<forall>m\<ge>n1. do_sort m t hi s3 = Some (Inr (quick_sort hi, s4))"
    and ok4: "sorter_ok_above t s4 (c # cs) b" and ex4: "extends s3 s4"
    by (auto simp: hi_def)
  from "2.prems" have f_unset: "shared_states s f = None"
    by (simp add: sorter_ok_above_def f_def)
  with ex4 have unset4: "shared_states s4 f = None"
    by (simp add: extends_def s3)
  from ok4 obtain w' where
    pop: "pop t (chunks s4) = Inr (Some c, w')" and st: "stack_above w' cs b"
    and hz: "hazard w' t \<noteq> None"
    using pop_stack_above [of "chunks s4" c cs b t] by (auto simp: sorter_ok_above_def)
  define s4' where "s4' = s4\<lparr>chunks := w'\<rparr>"
  from ok4 st hz have ok4': "sorter_ok_above t s4' cs b"
    by (simp add: sorter_ok_above_def s4'_def can_acquire_def)
  from "2.IH"(1) [OF ok4', folded lo_def]
  obtain n2 s6 where
    r2: "\<forall>m\<ge>n2. do_sort m t lo s4' = Some (Inr (quick_sort lo, s6))"
    and ok6: "sorter_ok_above t s6 cs b" and ex6: "extends s4' s6"
    by auto
  have f4: "f < next_state s4"
    using ex4 by (simp add: extends_def s3)
  with ex6 unset4 have unset6: "shared_states s6 f = None"
    by (simp add: extends_def s4'_def)
  define s7 where "s7 = s6\<lparr>shared_states := (shared_states s6)(f \<mapsto> quick_sort lo)\<rparr>"
  have f6: "f < next_state s6"
    using f4 ex6 by (simp add: extends_def s4'_def)
  with ok6 have ok7: "sorter_ok_above t s7 cs b"
    by (auto simp: sorter_ok_above_def s7_def)
  have ex7: "extends s s7"
    using ex4 ex6 f6 th3 by (auto simp: extends_def s7_def s4'_def s3 f_def)
  have run: "do_sort m t (p # rest) s = Some (Inr (quick_sort (p # rest), s7))"
    if "Suc (max n1 (n2 + 3)) \<le> m" for m
  proof -
    from that obtain m4 where m: "m = Suc (Suc (Suc (Suc m4)))" and m4: "n2 \<le> m4"
      and m1: "n1 \<le> Suc (Suc (Suc m4))"
      by (cases m; cases "m - 1"; cases "m - 2"; cases "m - 3") auto
    have "sort_chunk (Suc m4) t c s4' = Some (Inr s7)"
      using r2 m4 unset6 by (simp add: c_def s7_def)
    then have "try_sort_chunk (Suc (Suc m4)) t s4 = Some (Inr s7)"
      using pop by (simp add: s4'_def)
    then have "wait_for_lower (Suc (Suc (Suc m4))) t f s4 = Some (Inr (quick_sort lo, s7))"
      using unset4 by (simp add: s7_def)
    moreover have "do_sort (Suc (Suc (Suc m4))) t hi s3 = Some (Inr (quick_sort hi, s4))"
      using r1 m1 by blast
    ultimately show ?thesis
      unfolding m do_sort_Cons hi_def [symmetric] s3_def [symmetric] f_def [symmetric]
      by (simp add: lo_def hi_def del: machine_simps)
  qed
  with ok7 ex7 show ?case by blast
qed

lemma sorter_ok_is_above: "sorter_ok t s cs = sorter_ok_above t s cs None"
  by (simp add: sorter_ok_def sorter_ok_above_def stack_is_above)

lemma do_sort_returns:
  "sorter_ok t s cs \<Longrightarrow>
   \<exists>n s'. (\<forall>m\<ge>n. do_sort m t xs s = Some (Inr (quick_sort xs, s'))) \<and>
          sorter_ok t s' cs \<and> extends s s'"
  unfolding sorter_ok_is_above by (rule do_sort_returns_above)

lemma stack_above_Nil:
  "stack_above w [] b \<longleftrightarrow> head w = b \<and> (\<forall>a\<in>set (nodes_to_reclaim w). a < next_addr w)"
  by (auto simp: stack_above_def linked_above_def)

lemma sorter_ok_above_new:
  assumes "allocator_ok w" and "can_acquire t w"
  shows "sorter_ok_above t (sorter' hc w) [] (head w)"
  using assms
  by (simp add: sorter_ok_above_def sorter'_def stack_above_Nil allocator_ok_def list_all_iff)

lemma new_sorter_returns:
  assumes "allocator_ok w" and "can_acquire t w"
  shows "\<exists>n s'. (\<forall>m\<ge>n. do_sort m t xs (sorter' hc w) = Some (Inr (quick_sort xs, s'))) \<and>
           head (chunks s') = head w \<and> threads s' \<le> unat (hc - 1)"
proof -
  from do_sort_returns_above [OF sorter_ok_above_new [OF assms, of hc], of xs] obtain n s' where
    r: "\<forall>m\<ge>n. do_sort m t xs (sorter' hc w) = Some (Inr (quick_sort xs, s'))"
    and ok: "sorter_ok_above t s' [] (head w)" and ex: "extends (sorter' hc w) s'"
    by blast
  from ok have "head (chunks s') = head w"
    by (simp add: sorter_ok_above_def stack_above_Nil)
  moreover from ex have "threads s' \<le> unat (hc - 1)"
    by (simp add: extends_def sorter'_def)
  ultimately show ?thesis using r by blast
qed

lemma parallel_quick_sort_returns:
  assumes "allocator_ok w" and "can_acquire t w"
  shows "\<exists>n w'. (\<forall>m\<ge>n. parallel_quick_sort m t hc xs w = Some (Inr (quick_sort xs, w'))) \<and>
           (\<forall>k r. parallel_quick_sort k t hc xs w = Some r \<longrightarrow> r = Inr (quick_sort xs, w')) \<and>
           head w' = head w"
proof (cases "xs = []")
  case True
  then show ?thesis by (auto simp: parallel_quick_sort_def)
next
  case False
  from new_sorter_returns [OF assms, of xs hc] obtain n s' where
    r: "\<forall>m\<ge>n. do_sort m t xs (sorter' hc w) = Some (Inr (quick_sort xs, s'))"
    and hd: "head (chunks s') = head w"
    by blast
  have run: "\<forall>m\<ge>n. parallel_quick_sort m t hc xs w
      = Some (Inr (quick_sort xs, chunks (sorter_dtor s')))"
    using r False by (simp add: parallel_quick_sort_def)
  have det: "r' = Inr (quick_sort xs, chunks (sorter_dtor s'))"
    if "parallel_quick_sort k t hc xs w = Some r'" for k r'
  proof (cases "do_sort k t xs (sorter' hc w)")
    case None
    with that False show ?thesis by (simp add: parallel_quick_sort_def)
  next
    case (Some x)
    from do_sort_deterministic [OF r Some] have "x = Inr (quick_sort xs, s')" .
    with that Some False show ?thesis by (simp add: parallel_quick_sort_def)
  qed
  from hd have "head (chunks (sorter_dtor s')) = head w"
    by (simp add: sorter_dtor_def)
  with run det show ?thesis
    by (intro exI [of _ n] exI [of _ "chunks (sorter_dtor s')"]) auto
qed

lemma allocator_ok_initial: "allocator_ok (initial_world :: 'T world)"
  by (simp add: allocator_ok_def initial_world_def)



lemma sorter_ok_initial:
  "sorter_ok 0 (sorter' 1 (initial_world :: int chunk_to_sort world)) []"
  unfolding sorter_ok_is_above
  using sorter_ok_above_new [OF allocator_ok_initial can_acquire_initial, of 0 1]
  by (simp add: initial_world_def)

lemma do_sort_example:
  "map_option (map_sum id fst)
     (do_sort 9 0 [2, 1, 3::int] (sorter' 1 initial_world)) = Some (Inr [1, 2, 3])"
  by code_simp


text \<open>
  A \<open>pop\<close> that finds in \<open>head\<close> an address of no node reads through it.
\<close>

lemma pop_stale_head:
  assumes "can_acquire t w" and "head w = Some p" and "heap w p = None"
  shows "pop t w = Inl Dangling_pointer"
proof -
  from get_hazard_pointer_ok [OF assms(1)] obtain hp tbl where
    "get_hazard_pointer_for_current_thread t w =
       Inr (hp, w\<lparr>hazard_pointers := tbl, hazard := (hazard w)(t \<mapsto> hp)\<rparr>)"
    by blast
  with assms(2,3) show ?thesis
    by (simp add: pop_def Let_def store_def)
qed

text \<open>
  Runs of a started thread, from the state in which \<open>do_sort\<close> has pushed the lower chunk
  and started it.
\<close>

lemma worker_example_1:
  "map_option (map_sum id (\<lambda>s. ()))
     (sort_thread 4 1 (offloaded 7 [] (sorter' 4 (stale_world :: int chunk_to_sort world))))
   = Some (Inl Dangling_pointer)"
  by code_simp

lemma parallel_quick_sort_exhausted:
  assumes "hazard w t = None" and "\<not> slot_free (hazard_pointers w)" and "xs \<noteq> []"
  shows "\<exists>n. (\<forall>m\<ge>n. parallel_quick_sort m t hc xs w = Some (Inl No_hazard_pointers_available)) \<and>
           (\<forall>k r. parallel_quick_sort k t hc xs w = Some r
              \<longrightarrow> r = Inl No_hazard_pointers_available)"
proof -
  have "\<exists>n. \<forall>m\<ge>n. do_sort m t xs (sorter' hc w) = Some (Inl No_hazard_pointers_available)"
    using assms by (intro do_sort_exhausted) (simp_all add: sorter'_def)
  then obtain n where
    r: "\<forall>m\<ge>n. do_sort m t xs (sorter' hc w) = Some (Inl No_hazard_pointers_available)"
    by blast
  have "r' = Inl No_hazard_pointers_available"
    if "parallel_quick_sort k t hc xs w = Some r'" for k r'
  proof (cases "do_sort k t xs (sorter' hc w)")
    case None
    with that assms(3) show ?thesis by (simp add: parallel_quick_sort_def)
  next
    case (Some x)
    from do_sort_deterministic [OF r Some] have "x = Inl No_hazard_pointers_available" .
    with that Some assms(3) show ?thesis by (simp add: parallel_quick_sort_def)
  qed
  moreover have "\<forall>m\<ge>n. parallel_quick_sort m t hc xs w = Some (Inl No_hazard_pointers_available)"
    using r assms(3) by (simp add: parallel_quick_sort_def)
  ultimately show ?thesis by blast
qed

lemma exhausted_example:
  "map_option (map_sum id fst) (parallel_quick_sort 3 0 1 [7::int] exhausted_world)
     = Some (Inl No_hazard_pointers_available)"
  by code_simp

lemma exhausted_example_run:
  "parallel_quick_sort 3 0 1 [7::int] exhausted_world = Some (Inl No_hazard_pointers_available)"
proof (cases "parallel_quick_sort 3 0 1 [7::int] exhausted_world")
  case None
  with exhausted_example show ?thesis by simp
next
  case (Some r)
  with exhausted_example show ?thesis by (cases r) auto
qed

lemma worker_example_3:
  "map_option (map_sum id (\<lambda>s. ()))
     (sort_thread 16 1
        (offloaded 5 [3, 8, 1, 9, 2] (sorter' 4 (stale_world :: int chunk_to_sort world))))
   = Some (Inl Dangling_pointer)"
  by code_simp

lemma alone_example:
  "map_option (map_sum id fst) (parallel_quick_sort 5 0 1 [7::int] stale_world)
     = Some (Inr [7])"
  by code_simp

lemma projected_error:
  "map_option (map_sum id f) x = Some (Inl e) \<Longrightarrow> x = Some (Inl e)"
  by (cases x; cases "the x") auto

lemma projected_result:
  "map_option (map_sum id fst) x = Some (Inr ys) \<Longrightarrow> \<exists>w. x = Some (Inr (ys, w))"
  by (cases x; cases "the x") auto

text \<open>What holds of the sort with a cap of zero, whatever \<open>head\<close> held.\<close>

lemma sort_alone_permutes:
  assumes "allocator_ok w" and "can_acquire t w"
  shows "\<exists>n ys w'. parallel_quick_sort n t 1 xs w = Some (Inr (ys, w')) \<and>
           mset ys = mset xs \<and>
           (\<forall>k r. parallel_quick_sort k t 1 xs w = Some r \<longrightarrow> r = Inr (ys, w'))"
proof -
  from parallel_quick_sort_returns [OF assms, of 1 xs] obtain n w' where
    "\<forall>m\<ge>n. parallel_quick_sort m t 1 xs w = Some (Inr (quick_sort xs, w'))"
    "\<forall>k r. parallel_quick_sort k t 1 xs w = Some r \<longrightarrow> r = Inr (quick_sort xs, w')"
    by blast
  then show ?thesis
    by (intro exI [of _ n] exI [of _ "quick_sort xs"] exI [of _ w'])
       (simp add: mset_quick_sort)
qed

lemma sort_alone_sorted:
  fixes xs :: "'a::linorder list"
  assumes "allocator_ok w" and "can_acquire t w"
  shows "\<exists>n ys w'. parallel_quick_sort n t 1 xs w = Some (Inr (ys, w')) \<and>
           sorted ys \<and> (\<forall>i. Suc i < length ys \<longrightarrow> \<not> ys ! Suc i < ys ! i) \<and>
           (\<forall>k r. parallel_quick_sort k t 1 xs w = Some r \<longrightarrow> r = Inr (ys, w'))"
proof -
  from parallel_quick_sort_returns [OF assms, of 1 xs] obtain n w' where
    r: "\<forall>m\<ge>n. parallel_quick_sort m t 1 xs w = Some (Inr (quick_sort xs, w'))"
    "\<forall>k r. parallel_quick_sort k t 1 xs w = Some r \<longrightarrow> r = Inr (quick_sort xs, w')"
    by blast
  have "\<not> quick_sort xs ! Suc i < quick_sort xs ! i" if "Suc i < length (quick_sort xs)" for i
    using sorted_quick_sort [of xs] that
    by (simp add: sorted_iff_nth_Suc not_less)
  with r show ?thesis
    by (intro exI [of _ n] exI [of _ "quick_sort xs"] exI [of _ w'])
       (simp add: sorted_quick_sort)
qed

lemma worker_example_exhausted:
  "map_option (map_sum id (\<lambda>s. ()))
     (sort_thread 2 101 (offloaded 7 [] (sorter' 2 (exhausted_world :: int chunk_to_sort world))))
   = Some (Inl No_hazard_pointers_available)"
  by code_simp

section \<open>The claims\<close>

text \<open>
  The constructor of the sorter leaves \<open>head\<close> of its stack as the memory held it (see
  \<open>sorter'\<close>), so the claims about \<open>sort\<close> are stated from a process state \<open>w\<close> whose
  \<open>head\<close> is that value, with the allocator having handed out every address of the
  reclaim list (\<open>allocator_ok\<close>) and the thread owning a hazard slot or the table having a
  free one (\<open>can_acquire\<close>). The thread that calls the sort pops only while a chunk of its
  own is on the stack, and never reads through that value; a started thread polls the
  stack whenever it runs (\<open>sort_thread\<close>), also when nothing lies above that value.
\<close>

subsection \<open>C1: the output holds the elements of the input\<close>

text \<open>
  Claim C1 says that the list which the sort returns has the elements of the input with
  their multiplicities. The code does so with a cap of zero (\<open>sort_alone_permutes\<close>), but
  not when it has started a thread: the constructor never sets \<open>head\<close>, and a started
  thread that polls the stack after the last chunk is taken reads a node at whatever
  \<open>head\<close> held. Here the memory held \<open>0x2a\<close>, no node, and \<open>hardware_concurrency\<close> is
  \<open>4\<close>. The sort of \<open>[7]\<close> pushes the empty lower chunk and starts a thread (lines 67 to
  71); the thread pops the chunk, sorts it and fulfils its promise, polls again, and
  \<open>pop\<close> reads \<open>old_head->next\<close> at \<open>0x2a\<close> (line 166). The exception of the model stands
  for this read of memory that is no node; no list is returned. The same sort in the
  same memory with a cap of zero returns \<open>[7]\<close>.
\<close>

theorem worker_pops_the_unset_head:
  "head (chunks (sorter' 4 (stale_world :: int chunk_to_sort world))) = Some 42 \<and>
   heap (chunks (sorter' 4 (stale_world :: int chunk_to_sort world))) 42 = None \<and>
   threads (offloaded 7 [] (sorter' 4 (stale_world :: int chunk_to_sort world))) = 1 \<and>
   sort_thread 4 1 (offloaded 7 [] (sorter' 4 (stale_world :: int chunk_to_sort world)))
     = Some (Inl Dangling_pointer) \<and>
   (\<exists>w'. parallel_quick_sort 5 0 1 [7::int] stale_world = Some (Inr ([7], w')))"
proof -
  have "threads (offloaded 7 [] (sorter' 4 (stale_world :: int chunk_to_sort world))) = 1"
    by (simp add: offloaded_def sorter'_def Let_def)
  moreover have "head (chunks (sorter' 4 (stale_world :: int chunk_to_sort world))) = Some 42"
    "heap (chunks (sorter' 4 (stale_world :: int chunk_to_sort world))) 42 = None"
    by (simp_all add: sorter'_def stale_world_def)
  ultimately show ?thesis
    using projected_error [OF worker_example_1] projected_result [OF alone_example]
    by (intro conjI)
qed

subsection \<open>C2: the output is in order\<close>

text \<open>
  Claim C2 says that the list which the sort returns is in order. The code does so with
  a cap of zero (\<open>sort_alone_sorted\<close>); with a started thread the defect of C1 stops the
  sort of \<open>[5, 3, 8, 1, 9, 2]\<close> before it returns. The pivot is \<open>5\<close>, the partition
  leaves \<open>[3, 2, 1]\<close> and \<open>[9, 8]\<close>, the lower chunk is pushed above the value that
  \<open>head\<close> held and a thread is started. The thread pops the chunk and sorts it, pushing
  and popping the chunks of its own recursion, fulfils the promise, polls again, and
  \<open>pop\<close> reads a node at \<open>0x2a\<close>.
\<close>

theorem worker_pops_the_unset_head_in_scenario:
  "partition_step (5::int) [3, 8, 1, 9, 2] = ([3, 2, 1], [9, 8]) \<and>
   threads (offloaded 5 [3, 8, 1, 9, 2] (sorter' 4 (stale_world :: int chunk_to_sort world))) = 1 \<and>
   sort_thread 16 1
     (offloaded 5 [3, 8, 1, 9, 2] (sorter' 4 (stale_world :: int chunk_to_sort world)))
     = Some (Inl Dangling_pointer)"
proof -
  have "partition_step (5::int) [3, 8, 1, 9, 2] = ([3, 2, 1], [9, 8])"
    by code_simp
  moreover have
    "threads (offloaded 5 [3, 8, 1, 9, 2] (sorter' 4 (stale_world :: int chunk_to_sort world))) = 1"
    by (simp add: offloaded_def sorter'_def Let_def)
  ultimately show ?thesis
    using projected_error [OF worker_example_3] by (intro conjI)
qed

subsection \<open>C3: the partition step\<close>

text \<open>
  Claim C3, as the code has it. In every partition step of \<open>do_sort\<close> the list behind the
  pivot is split into a group of the elements less than the pivot and a group of the
  elements not less than it: each group holds exactly those elements of the list, with
  their multiplicities, so every element equal to the pivot is in the second group and
  none in the first. The order inside a group is that left by \<open>std::partition\<close>, which
  does not keep the order of the input.
\<close>

theorem partition_step_groups:
  fixes pivot_val :: "'a::preorder"
  shows "mset (fst (partition_step pivot_val chunk_data))
           = filter_mset (\<lambda>val. val < pivot_val) (mset chunk_data) \<and>
         mset (snd (partition_step pivot_val chunk_data))
           = filter_mset (\<lambda>val. \<not> val < pivot_val) (mset chunk_data) \<and>
         count (mset (fst (partition_step pivot_val chunk_data))) pivot_val = 0 \<and>
         count (mset (snd (partition_step pivot_val chunk_data))) pivot_val
           = count (mset chunk_data) pivot_val"
  by (simp add: partition_step_filter)

text \<open>
  The partition is not stable. \<open>do_sort\<close> on \<open>[2, 5, 1, 3, 0]\<close> takes the pivot \<open>2\<close>
  and partitions \<open>[5, 1, 3, 0]\<close>: the forward iterator stops at \<open>5\<close>, the backward one
  at \<open>0\<close>, the two are exchanged, the forward iterator passes \<open>1\<close> and stops at \<open>3\<close>,
  where the backward one meets it. The groups are \<open>[0, 1]\<close> and \<open>[3, 5]\<close>; in the order
  of the input they would be \<open>[1, 0]\<close> and \<open>[5, 3]\<close>.
\<close>

theorem partition_step_not_stable:
  "partition_step (2::int) [5, 1, 3, 0] = ([0, 1], [3, 5]) \<and>
   filter (\<lambda>val. val < 2) [5, 1, 3, 0::int] = [1, 0] \<and>
   filter (\<lambda>val. \<not> val < 2) [5, 1, 3, 0::int] = [5, 3]"
  by code_simp

subsection \<open>C4: the sort returns without any worker\<close>



subsection \<open>C5: an exhausted hazard table\<close>

text \<open>
  Claim C5, as the code has it. A thread that owns no slot and finds every slot of the
  table owned fails to construct its \<open>hp_owner\<close> in its first \<open>pop\<close>, which returns the
  exception and frees nothing. When the sorter starts no thread (a cap of zero) and the
  input is not empty, the thread that called the sort is the one that pops, and the
  exception leaves \<open>try_sort_chunk\<close>, \<open>do_sort\<close> and \<open>parallel_quick_sort\<close> and reaches
  the caller.
\<close>

theorem exhausted_table_fails_the_sort:
  assumes "hazard w t = None" and "\<not> slot_free (hazard_pointers w)"
  shows "hp_owner t (hazard_pointers w) = Inl No_hazard_pointers_available \<and>
         pop t w = Inl No_hazard_pointers_available \<and>
         (xs \<noteq> [] \<longrightarrow>
            (\<exists>n. (\<forall>m\<ge>n. parallel_quick_sort m t 1 xs w
                      = Some (Inl No_hazard_pointers_available)) \<and>
                 (\<forall>k r. parallel_quick_sort k t 1 xs w = Some r
                      \<longrightarrow> r = Inl No_hazard_pointers_available)))"
  using assms parallel_quick_sort_exhausted [OF assms, of xs 1]
  by (simp add: hp_owner_full pop_full)

text \<open>
  The sort of \<open>[7]\<close> by thread \<open>0\<close> with a cap of zero, every slot owned by the threads
  \<open>1\<close> to \<open>100\<close>.
\<close>

theorem exhausted_table_fails_the_sort_witness:
  "hazard (exhausted_world :: int chunk_to_sort world) 0 = None \<and>
   \<not> slot_free (hazard_pointers (exhausted_world :: int chunk_to_sort world)) \<and>
   pop 0 (exhausted_world :: int chunk_to_sort world) = Inl No_hazard_pointers_available \<and>
   parallel_quick_sort 3 0 1 [7::int] exhausted_world = Some (Inl No_hazard_pointers_available)"
proof -
  have h: "hazard (exhausted_world :: int chunk_to_sort world) 0 = None"
    by (simp add: exhausted_world_def)
  have "pop 0 (exhausted_world :: int chunk_to_sort world) = Inl No_hazard_pointers_available"
    using exhausted_table_fails_the_sort [OF h slot_free_exhausted, of "[7]"]
    by (rule conjunct2 [THEN conjunct1])
  then show ?thesis
    by (intro conjI h slot_free_exhausted exhausted_example_run)
qed

text \<open>
  Claim C5 as it is worded fails in two ways, with every slot of the table owned by the
  threads \<open>1\<close> to \<open>100\<close>. The first stack operation of a thread can be a \<open>push\<close>, as it is
  for the thread that calls the sort (line 67): \<open>push\<close> by thread \<open>0\<close> links its node and
  returns; the thread has not asked for a slot and nothing has failed. And the thread
  whose first \<open>pop\<close> fails can be one that the sorter started: with
  \<open>hardware_concurrency = 2\<close> the sort of \<open>[7]\<close> starts thread \<open>101\<close>, whose \<open>pop\<close> fails,
  and the exception leaves \<open>sort_thread\<close>, the function of that thread (lines 43 to 48),
  which has no handler: it does not reach the caller of the sort.
\<close>

theorem exhaustion_outside_the_calling_pop:
  "hazard (exhausted_world :: nat world) 0 = None \<and>
   \<not> slot_free (hazard_pointers (exhausted_world :: nat world)) \<and>
   head (exhausted_world :: nat world) = None \<and>
   head (push 7 (exhausted_world :: nat world)) = Some 1 \<and>
   map_option data (heap (push 7 (exhausted_world :: nat world)) 1) = Some (Some 7) \<and>
   hazard (push 7 (exhausted_world :: nat world)) 0 = None \<and>
   threads (offloaded 7 [] (sorter' 2 (exhausted_world :: int chunk_to_sort world))) = 1 \<and>
   sort_thread 2 101 (offloaded 7 [] (sorter' 2 (exhausted_world :: int chunk_to_sort world)))
     = Some (Inl No_hazard_pointers_available)"
proof -
  have "hazard (exhausted_world :: nat world) 0 = None"
    "head (exhausted_world :: nat world) = None"
    "next_addr (exhausted_world :: nat world) = 1"
    by (simp_all add: exhausted_world_def)
  then have "hazard (exhausted_world :: nat world) 0 = None \<and>
   \<not> slot_free (hazard_pointers (exhausted_world :: nat world)) \<and>
   head (exhausted_world :: nat world) = None \<and>
   head (push 7 (exhausted_world :: nat world)) = Some 1 \<and>
   map_option data (heap (push 7 (exhausted_world :: nat world)) 1) = Some (Some 7) \<and>
   hazard (push 7 (exhausted_world :: nat world)) 0 = None"
    by (simp add: slot_free_exhausted push_def Let_def)
  moreover have
    "threads (offloaded 7 [] (sorter' 2 (exhausted_world :: int chunk_to_sort world))) = 1"
    by (simp add: offloaded_def sorter'_def Let_def)
  ultimately show ?thesis
    using projected_error [OF worker_example_exhausted] by simp
qed

subsection \<open>C6: a node that a hazard pointer holds is not freed\<close>

text \<open>
  Claim C6. Every node that \<open>pop\<close> frees (its own, or one of the reclaim list in the sweep
  that follows) is one whose address no slot of the hazard table holds; when a slot holds
  the address of the popped node, \<open>pop\<close> puts the node on the reclaim list and leaves it
  allocated. The sweep \<open>delete_nodes_with_no_hazards\<close> leaves the table as it is, keeps
  on the list exactly the entries that a slot holds, and frees exactly the others.
\<close>

theorem hazard_protected_nodes_are_not_freed:
  "(\<forall>r w'. pop t w = Inr (r, w') \<longrightarrow>
      (\<forall>a. a \<in> dom (heap w) \<and> a \<notin> dom (heap w')
           \<longrightarrow> \<not> outstanding_hazard_pointers_for (Some a) (hazard_pointers w')) \<and>
      (\<forall>p. head w = Some p \<and> outstanding_hazard_pointers_for (Some p) (hazard_pointers w')
           \<longrightarrow> p \<in> set (nodes_to_reclaim w') \<and> p \<in> dom (heap w'))) \<and>
   hazard_pointers (delete_nodes_with_no_hazards w) = hazard_pointers w \<and>
   nodes_to_reclaim (delete_nodes_with_no_hazards w) =
     rev (filter (\<lambda>a. outstanding_hazard_pointers_for (Some a) (hazard_pointers w))
            (nodes_to_reclaim w)) \<and>
   (\<forall>a. a \<in> dom (heap w) \<and> a \<notin> dom (heap (delete_nodes_with_no_hazards w)) \<longleftrightarrow>
        a \<in> dom (heap w) \<and> a \<in> set (nodes_to_reclaim w) \<and>
        \<not> outstanding_hazard_pointers_for (Some a) (hazard_pointers w))"
proof (intro conjI allI impI)
  fix r w' a
  assume ok: "pop t w = Inr (r, w')"
    and a: "a \<in> dom (heap w) \<and> a \<notin> dom (heap w')"
  show "\<not> outstanding_hazard_pointers_for (Some a) (hazard_pointers w')"
  proof (cases "head w")
    case None
    with ok a show ?thesis by (simp add: pop_empty_heap)
  next
    case (Some p)
    from pop_unfold [OF ok Some] obtain nd w5 where
      h5: "heap w5 = (heap w)(p \<mapsto> nd\<lparr>data := None\<rparr>)"
      and w': "w' = delete_nodes_with_no_hazards
            (if outstanding_hazard_pointers_for (Some p) (hazard_pointers w5)
             then reclaim_later p w5 else delete p w5)"
      by blast
    show ?thesis
    proof (cases "outstanding_hazard_pointers_for (Some p) (hazard_pointers w5)")
      case True
      with a h5 w' show ?thesis
        by (auto simp: sweep_result reclaim_later_def add_to_reclaim_list_def
            split: if_splits)
    next
      case False
      with a h5 w' show ?thesis
        by (auto simp: sweep_result delete_def split: if_splits)
    qed
  qed
next
  fix r w' p
  assume ok: "pop t w = Inr (r, w')"
    and p: "head w = Some p \<and> outstanding_hazard_pointers_for (Some p) (hazard_pointers w')"
  from pop_unfold [OF ok conjunct1 [OF p]] obtain nd w5 where
    h5: "heap w5 = (heap w)(p \<mapsto> nd\<lparr>data := None\<rparr>)"
    and w': "w' = delete_nodes_with_no_hazards
          (if outstanding_hazard_pointers_for (Some p) (hazard_pointers w5)
           then reclaim_later p w5 else delete p w5)"
    by blast
  from w' have tbl: "hazard_pointers w' = hazard_pointers w5"
    by (simp add: sweep_result reclaim_later_def add_to_reclaim_list_def delete_def)
  with p have out: "outstanding_hazard_pointers_for (Some p) (hazard_pointers w5)" by simp
  with w' h5 show "p \<in> set (nodes_to_reclaim w')"
    by (simp add: sweep_result reclaim_later_def add_to_reclaim_list_def)
  from out w' h5 show "p \<in> dom (heap w')"
    by (auto simp: sweep_result reclaim_later_def add_to_reclaim_list_def dom_def)
qed (auto simp: sweep_result)

theorem hazard_protected_nodes_are_not_freed_witness:
  "head watched_world = Some 1 \<and> 1 \<in> dom (heap watched_world) \<and>
   (\<exists>w'. pop 0 watched_world = Inr (Some 7, w') \<and>
      outstanding_hazard_pointers_for (Some 1) (hazard_pointers w') \<and>
      1 \<in> set (nodes_to_reclaim w') \<and> 1 \<in> dom (heap w'))"
proof -
  obtain r w' where p: "pop 0 watched_world = Inr (r, w')"
    and r: "r = Some 7" and out: "outstanding_hazard_pointers_for (Some 1) (hazard_pointers w')"
    using watched_world_pop by (cases "pop 0 watched_world") auto
  have hd: "head watched_world = Some 1"
    by (simp add: watched_world_def)
  have "1 \<in> dom (heap watched_world)"
    by (simp add: watched_world_def)
  moreover have "1 \<in> set (nodes_to_reclaim w') \<and> 1 \<in> dom (heap w')"
    using hazard_protected_nodes_are_not_freed [of 0 watched_world] p hd out by blast
  ultimately show ?thesis using p r out hd by blast
qed

subsection \<open>C7: the default cap on worker threads\<close>

text \<open>
  Claim C7, as the code has it. The cap of a new sorter is the hardware parallelism minus
  one in 32-bit unsigned arithmetic: one less than it when it is not zero, at least one
  for every value other than one, and zero when the hardware parallelism is one (the
  constructor has no lower bound).
\<close>

theorem max_thread_count_default:
  "max_thread_count (sorter' hardware_concurrency w) = hardware_concurrency - 1 \<and>
   (hardware_concurrency \<noteq> 0 \<longrightarrow>
      unat (max_thread_count (sorter' hardware_concurrency w)) = unat hardware_concurrency - 1) \<and>
   (hardware_concurrency \<noteq> 1 \<longrightarrow> 1 \<le> max_thread_count (sorter' hardware_concurrency w)) \<and>
   (hardware_concurrency = 1 \<longrightarrow> max_thread_count (sorter' hardware_concurrency w) = 0)"
proof -
  have "unat (hardware_concurrency - 1) = unat hardware_concurrency - 1"
    if "hardware_concurrency \<noteq> 0"
    using that by (simp add: unat_minus_one)
  moreover have "1 \<le> hardware_concurrency - 1" if "hardware_concurrency \<noteq> 1"
    using that by (simp flip: not_less)
  ultimately show ?thesis by (simp add: sorter'_def)
qed

theorem max_thread_count_default_witness:
  "max_thread_count (sorter' 4 (initial_world :: nat chunk_to_sort world)) = 3 \<and>
   unat (max_thread_count (sorter' 4 (initial_world :: nat chunk_to_sort world))) = 3 \<and>
   1 \<le> max_thread_count (sorter' 4 (initial_world :: nat chunk_to_sort world))"
  using max_thread_count_default [of 4 "initial_world :: nat chunk_to_sort world"]
  by simp

text \<open>With a hardware parallelism of one the cap is zero, not at least one.\<close>

theorem max_thread_count_zero_on_one_core:
  "max_thread_count (sorter' 1 (initial_world :: nat chunk_to_sort world)) = 0 \<and>
   \<not> 1 \<le> max_thread_count (sorter' 1 (initial_world :: nat chunk_to_sort world))"
  by (simp add: sorter'_def)

subsection \<open>C8: the stack is last in, first out\<close>

text \<open>
  Claim C8. On an empty stack, a thread that can get its hazard pointer pushes \<open>p1\<close>,
  \<open>p2\<close>, \<open>p3\<close>; its next three calls of \<open>pop\<close> return \<open>p3\<close>, \<open>p2\<close>, \<open>p1\<close> in this
  order, and the fourth returns the empty pointer.
\<close>

theorem stack_lifo:
  assumes "stack_is w []" and "can_acquire t w"
  shows "\<exists>w1 w2 w3 w4.
           pop t (push p3 (push p2 (push p1 w))) = Inr (Some p3, w1) \<and>
           pop t w1 = Inr (Some p2, w2) \<and>
           pop t w2 = Inr (Some p1, w3) \<and>
           pop t w3 = Inr (None, w4)"
proof -
  have a: "stack_is (push p1 w) [p1]"
    by (rule stack_is_push [OF assms(1)])
  have b: "stack_is (push p2 (push p1 w)) [p2, p1]"
    by (rule stack_is_push [OF a])
  have c: "stack_is (push p3 (push p2 (push p1 w))) [p3, p2, p1]"
    by (rule stack_is_push [OF b])
  have "can_acquire t (push p3 (push p2 (push p1 w)))"
    using assms(2) by (simp add: can_acquire_push)
  from pop_stack_is [OF c this] obtain w1 where
    1: "pop t (push p3 (push p2 (push p1 w))) = Inr (Some p3, w1)"
    and s1: "stack_is w1 [p2, p1]" and h1: "hazard w1 t \<noteq> None"
    by auto
  from h1 have "can_acquire t w1" by (simp add: can_acquire_def)
  from pop_stack_is [OF s1 this] obtain w2 where
    2: "pop t w1 = Inr (Some p2, w2)" and s2: "stack_is w2 [p1]" and h2: "hazard w2 t \<noteq> None"
    by auto
  from h2 have "can_acquire t w2" by (simp add: can_acquire_def)
  from pop_stack_is [OF s2 this] obtain w3 where
    3: "pop t w2 = Inr (Some p1, w3)" and s3: "stack_is w3 []" and h3: "hazard w3 t \<noteq> None"
    by auto
  from h3 have c3: "can_acquire t w3" by (simp add: can_acquire_def)
  from s3 have "head w3 = None" by (simp add: stack_is_Nil)
  from pop_empty [OF this c3] obtain w4 where "pop t w3 = Inr (None, w4)"
    by auto
  with 1 2 3 show ?thesis by blast
qed

theorem stack_lifo_witness:
  "stack_is (initial_world :: nat world) [] \<and> can_acquire 0 (initial_world :: nat world) \<and>
   (\<exists>w1 w2 w3 w4.
      pop 0 (push 30 (push 20 (push 10 (initial_world :: nat world)))) = Inr (Some 30, w1) \<and>
      pop 0 w1 = Inr (Some 20, w2) \<and>
      pop 0 w2 = Inr (Some 10, w3) \<and>
      pop 0 w3 = Inr (None, w4))"
  using stack_lifo [of "initial_world :: nat world" 0 30 20 10]
  by (simp add: stack_is_initial can_acquire_initial)

subsection \<open>C9: the pivot is the first element\<close>

text \<open>
  Claim C9. On \<open>x # xs\<close>, \<open>do_sort\<close> returns \<open>lower @ [x] @ higher\<close>, where \<open>lower\<close> is
  the list \<open>do_sort\<close> returns on the elements of \<open>xs\<close> less than \<open>x\<close> as the partition
  step leaves them, and \<open>higher\<close> the list it returns on the others: the first element is
  the pivot and stands between the two sorted parts.
\<close>

theorem do_sort_pivot_is_first_element:
  assumes "sorter_ok t s cs"
  shows "\<exists>n lower higher s'.
           (\<forall>m\<ge>n. do_sort m t (x # xs) s = Some (Inr (lower @ [x] @ higher, s'))) \<and>
           (\<forall>k r. do_sort k t (x # xs) s = Some r \<longrightarrow> r = Inr (lower @ [x] @ higher, s')) \<and>
           (\<forall>m\<ge>n. \<exists>s1. do_sort m t (fst (partition_step x xs)) s = Some (Inr (lower, s1))) \<and>
           (\<forall>m\<ge>n. \<exists>s2. do_sort m t (snd (partition_step x xs)) s = Some (Inr (higher, s2))) \<and>
           mset lower = filter_mset (\<lambda>val. val < x) (mset xs) \<and>
           mset higher = filter_mset (\<lambda>val. \<not> val < x) (mset xs)"
proof -
  define lo where "lo = fst (partition_step x xs)"
  define hi where "hi = snd (partition_step x xs)"
  from do_sort_returns [OF assms, of "x # xs"] obtain n s' where
    r: "\<forall>m\<ge>n. do_sort m t (x # xs) s = Some (Inr (quick_sort (x # xs), s'))"
    by blast
  from do_sort_returns [OF assms, of lo] obtain n1 s1 where
    r1: "\<forall>m\<ge>n1. do_sort m t lo s = Some (Inr (quick_sort lo, s1))"
    by blast
  from do_sort_returns [OF assms, of hi] obtain n2 s2 where
    r2: "\<forall>m\<ge>n2. do_sort m t hi s = Some (Inr (quick_sort hi, s2))"
    by blast
  have eq: "quick_sort (x # xs) = quick_sort lo @ [x] @ quick_sort hi"
    by (simp add: lo_def hi_def)
  have a1: "\<forall>m\<ge>max n (max n1 n2).
          do_sort m t (x # xs) s = Some (Inr (quick_sort lo @ [x] @ quick_sort hi, s'))"
    using r eq by simp
  have a2: "\<forall>k r. do_sort k t (x # xs) s = Some r
          \<longrightarrow> r = Inr (quick_sort lo @ [x] @ quick_sort hi, s')"
    using do_sort_deterministic [OF r] eq by simp
  have a3: "\<forall>m\<ge>max n (max n1 n2). \<exists>s1. do_sort m t lo s = Some (Inr (quick_sort lo, s1))"
    using r1 by simp
  have a4: "\<forall>m\<ge>max n (max n1 n2). \<exists>s2. do_sort m t hi s = Some (Inr (quick_sort hi, s2))"
    using r2 by simp
  have a5: "mset (quick_sort lo) = filter_mset (\<lambda>val. val < x) (mset xs)"
    by (simp add: mset_quick_sort lo_def partition_step_filter)
  have a6: "mset (quick_sort hi) = filter_mset (\<lambda>val. \<not> val < x) (mset xs)"
    by (simp add: mset_quick_sort hi_def partition_step_filter)
  show ?thesis
    unfolding lo_def [symmetric] hi_def [symmetric]
    by (intro exI [of _ "max n (max n1 n2)"] exI [of _ "quick_sort lo"]
        exI [of _ "quick_sort hi"] exI [of _ s'] conjI a1 a2 a3 a4 a5 a6)
qed

theorem do_sort_pivot_is_first_element_witness:
  "sorter_ok 0 (sorter' 1 (initial_world :: int chunk_to_sort world)) [] \<and>
   partition_step (2::int) [1, 3] = ([1], [3]) \<and>
   (\<exists>lower higher s'.
      do_sort 9 0 [2, 1, 3::int] (sorter' 1 initial_world) = Some (Inr (lower @ [2] @ higher, s')) \<and>
      mset lower = {#1#} \<and> mset higher = {#3#})"
proof -
  from do_sort_pivot_is_first_element [OF sorter_ok_initial, of 2 "[1, 3]"]
  obtain lower higher s' where
    d: "\<forall>k r. do_sort k 0 [2, 1, 3::int] (sorter' 1 initial_world) = Some r
          \<longrightarrow> r = Inr (lower @ [2] @ higher, s')"
    and l: "mset lower = filter_mset (\<lambda>val. val < 2) (mset [1, 3::int])"
    and h: "mset higher = filter_mset (\<lambda>val. \<not> val < 2) (mset [1, 3::int])"
    by blast
  obtain r where run: "do_sort 9 0 [2, 1, 3::int] (sorter' 1 initial_world) = Some r"
    using do_sort_example by (cases "do_sort 9 0 [2, 1, 3::int] (sorter' 1 initial_world)") auto
  with d have "do_sort 9 0 [2, 1, 3::int] (sorter' 1 initial_world)
      = Some (Inr (lower @ [2] @ higher, s'))" by simp
  moreover have "partition_step (2::int) [1, 3] = ([1], [3])" by code_simp
  ultimately show ?thesis using l h sorter_ok_initial by auto
qed

subsection \<open>C10: \<open>pop\<close> gets the hazard pointer before it reads the head\<close>

text \<open>
  Claim C10. A thread that owns no slot and finds none free gets the exception from
  \<open>pop\<close>, whatever the stack holds. On an empty stack \<open>pop\<close> returns the empty pointer
  exactly when the thread owns a slot or can claim one, and after every call that returns
  the thread owns a slot.
\<close>

theorem pop_acquires_hazard_pointer_first:
  "(hazard w t = None \<and> \<not> slot_free (hazard_pointers w)
      \<longrightarrow> pop t w = Inl No_hazard_pointers_available) \<and>
   (head w = None \<longrightarrow>
      ((\<exists>w'. pop t w = Inr (None, w')) \<longleftrightarrow>
       hazard w t \<noteq> None \<or> slot_free (hazard_pointers w))) \<and>
   (\<forall>r w'. pop t w = Inr (r, w') \<longrightarrow> hazard w' t \<noteq> None)"
proof (intro conjI impI allI)
  assume "hazard w t = None \<and> \<not> slot_free (hazard_pointers w)"
  then show "pop t w = Inl No_hazard_pointers_available" by (simp add: pop_full)
next
  assume hd: "head w = None"
  show "(\<exists>w'. pop t w = Inr (None, w')) \<longleftrightarrow> hazard w t \<noteq> None \<or> slot_free (hazard_pointers w)"
  proof
    assume ex: "\<exists>w'. pop t w = Inr (None, w')"
    show "hazard w t \<noteq> None \<or> slot_free (hazard_pointers w)"
    proof (rule ccontr)
      assume "\<not> (hazard w t \<noteq> None \<or> slot_free (hazard_pointers w))"
      then have "pop t w = Inl No_hazard_pointers_available" by (simp add: pop_full)
      with ex show False by simp
    qed
  next
    assume "hazard w t \<noteq> None \<or> slot_free (hazard_pointers w)"
    then show "\<exists>w'. pop t w = Inr (None, w')"
      using pop_empty [OF hd, of t] by (auto simp: can_acquire_def)
  qed
next
  fix r w'
  assume "pop t w = Inr (r, w')"
  then show "hazard w' t \<noteq> None" by (rule pop_keeps_slot)
qed

theorem pop_acquires_hazard_pointer_first_witness:
  "pop 0 (exhausted_world :: nat world) = Inl No_hazard_pointers_available \<and>
   (\<exists>w'. pop 0 (initial_world :: nat world) = Inr (None, w'))"
  using pop_acquires_hazard_pointer_first [of "exhausted_world :: nat world" 0]
    pop_acquires_hazard_pointer_first [of "initial_world :: nat world" 0]
  by (simp add: slot_free_exhausted slot_free_initial)
     (simp add: exhausted_world_def initial_world_def)

end
